theory Spec2Isabelle
  imports Complex_Main "HOL-Library.Monad_Syntax"
begin

section \<open>The device histogrammer of \<^verbatim>\<open>pisa/devel/hist.py\<close>\<close>

text \<open>
  The module holds a CUDA kernel (\<^verbatim>\<open>GetBin\<close>, \<^verbatim>\<open>Hist2D\<close>) and the Python class
  \<^verbatim>\<open>GPUhist\<close> that owns the device buffers and launches the kernel.

  Modelling decisions:
  \<^item> \<^verbatim>\<open>fType\<close> (float64) is idealised as \<open>real\<close>: comparisons are those of the source,
    sums are exact, NaN is not modelled.
  \<^item> C \<^verbatim>\<open>int\<close> values (\<^verbatim>\<open>n_bins\<close>, \<^verbatim>\<open>first\<close>, \<^verbatim>\<open>last\<close>, \<^verbatim>\<open>bin\<close>) are \<open>int\<close>; the bin
    counts of the class are \<^verbatim>\<open>np.int32\<close> and the search never leaves \<open>[-1, n_bins]\<close>.
    The global thread index is the one place where 32-bit arithmetic is reached by
    ordinary inputs; its wrap-around is written out (\<open>thread_idx\<close>).
  \<^item> Device memory is an explicit store from device pointers to arrays; a read or an
    atomic add outside an allocation, and the return of the uninitialised \<^verbatim>\<open>bin\<close>, are
    undefined behaviour, the value \<open>None\<close>.
  \<^item> A kernel launch runs its workers one after the other, block by block; every write of
    the kernel is an addition of reals, so the order does not change the result.
\<close>

subsection \<open>Device memory\<close>

type_synonym fType = real
type_synonym devptr = nat
type_synonym heap = "devptr \<rightharpoonup> fType list"

record device =
  mem :: heap
  next_ptr :: devptr

text \<open>\<^verbatim>\<open>cuda.mem_alloc(nbytes)\<close>: a fresh allocation of \<open>n\<close> elements; the driver refuses an
  allocation of zero bytes. The fresh contents are never read by this module (each
  allocation is overwritten by a copy before its first use).\<close>

definition mem_alloc :: "device \<Rightarrow> nat \<Rightarrow> (devptr \<times> device) option" where
  "mem_alloc dev n =
     (if n = 0 then None
      else Some (next_ptr dev,
                 dev\<lparr>mem := (mem dev)(next_ptr dev \<mapsto> replicate n 0),
                     next_ptr := Suc (next_ptr dev)\<rparr>))"

text \<open>\<^verbatim>\<open>cuda.memcpy_htod(dest, src)\<close>: copies the whole host array to the start of the
  allocation.\<close>

definition memcpy_htod :: "device \<Rightarrow> devptr \<Rightarrow> fType list \<Rightarrow> device option" where
  "memcpy_htod dev dest src =
     (case mem dev dest of
        None \<Rightarrow> None
      | Some old \<Rightarrow>
          if length src \<le> length old
          then Some (dev\<lparr>mem := (mem dev)(dest \<mapsto> src @ drop (length src) old)\<rparr>)
          else None)"

text \<open>\<^verbatim>\<open>cuda.memcpy_dtoh(dest, src)\<close>: fills the host array (of \<open>n\<close> elements) from the start
  of the allocation.\<close>

definition memcpy_dtoh :: "device \<Rightarrow> nat \<Rightarrow> devptr \<Rightarrow> fType list option" where
  "memcpy_dtoh dev n src =
     (case mem dev src of
        None \<Rightarrow> None
      | Some a \<Rightarrow> if n \<le> length a then Some (take n a) else None)"

text \<open>An array read \<^verbatim>\<open>p[i]\<close> and \<^verbatim>\<open>atomicAdd(&p[i], v)\<close> in the kernel.\<close>

definition ld :: "heap \<Rightarrow> devptr \<Rightarrow> int \<Rightarrow> fType option" where
  "ld h p i =
     (case h p of
        None \<Rightarrow> None
      | Some a \<Rightarrow> if 0 \<le> i \<and> i < int (length a) then Some (a ! nat i) else None)"

definition atomicAdd :: "heap \<Rightarrow> devptr \<Rightarrow> int \<Rightarrow> fType \<Rightarrow> heap option" where
  "atomicAdd h p i v =
     (case h p of
        None \<Rightarrow> None
      | Some a \<Rightarrow>
          if 0 \<le> i \<and> i < int (length a)
          then Some (h(p \<mapsto> a[nat i := a ! nat i + v]))
          else None)"

subsection \<open>The kernel: \<^verbatim>\<open>GetBin\<close>\<close>

text \<open>C's integer division truncates towards zero.\<close>

definition c_div :: "int \<Rightarrow> int \<Rightarrow> int" where
  "c_div a b = sgn a * sgn b * (\<bar>a\<bar> div \<bar>b\<bar>)"

lemma c_div_2_bounds:
  "(f::int) \<le> l \<Longrightarrow> f \<le> c_div (f + l) 2 \<and> c_div (f + l) 2 \<le> l"
proof -
  assume fl: "f \<le> l"
  consider "f + l < 0" | "f + l = 0" | "0 < f + l" by linarith
  then show ?thesis
  proof cases
    case 1
    then have "c_div (f + l) 2 = - ((- (f + l)) div 2)" by (simp add: c_div_def)
    with fl 1 show ?thesis by presburger
  next
    case 2
    then show ?thesis using fl by (simp add: c_div_def)
  next
    case 3
    then have "c_div (f + l) 2 = (f + l) div 2" by (simp add: c_div_def)
    with fl 3 show ?thesis by presburger
  qed
qed

text \<open>
  The \<^verbatim>\<open>while\<close> loop of \<^verbatim>\<open>GetBin\<close>. The variable \<^verbatim>\<open>bin\<close> is declared without a value:
  it is \<open>None\<close> until the first iteration assigns it. The condition
  \<^verbatim>\<open>(x < e[bin+1]) || ((x <= e[n_bins])) && (bin == n_bins - 1)\<close> groups as
  \<^verbatim>\<open>A || (B && C)\<close> and reads \<^verbatim>\<open>e[n_bins]\<close> only when \<^verbatim>\<open>A\<close> is false.
\<close>

function GetBin_loop ::
  "heap \<Rightarrow> fType \<Rightarrow> int \<Rightarrow> devptr \<Rightarrow> int \<Rightarrow> int \<Rightarrow> int option \<Rightarrow> int option" where
  "GetBin_loop h x n_bins bin_edges first last' bin =
     (if first \<le> last' then
        (let bin' = c_div (first + last') 2 in
         case ld h bin_edges bin' of
           None \<Rightarrow> None
         | Some e_lo \<Rightarrow>
             if x \<ge> e_lo then
               (case ld h bin_edges (bin' + 1) of
                  None \<Rightarrow> None
                | Some e_hi \<Rightarrow>
                    if x < e_hi then Some bin'
                    else
                      (case ld h bin_edges n_bins of
                         None \<Rightarrow> None
                       | Some e_top \<Rightarrow>
                           if x \<le> e_top \<and> bin' = n_bins - 1 then Some bin'
                           else GetBin_loop h x n_bins bin_edges (bin' + 1) last' (Some bin')))
             else GetBin_loop h x n_bins bin_edges first (bin' - 1) (Some bin'))
      else bin)"
  by pat_completeness auto
termination
proof (relation "measure (\<lambda>(h, x, n_bins, bin_edges, first, last', bin). nat (last' - first + 1))")
  show "wf (measure (\<lambda>(h, x, n_bins, bin_edges, first, last', bin). nat (last' - first + 1)))"
    by simp
next
  fix h :: heap and x :: fType and n_bins :: int and bin_edges :: devptr
    and first last' :: int and bin :: "int option" and xa :: int
  assume "first \<le> last'" and "xa = c_div (first + last') 2"
  then show "((h, x, n_bins, bin_edges, xa + 1, last', Some xa),
              h, x, n_bins, bin_edges, first, last', bin)
       \<in> measure (\<lambda>(h, x, n_bins, bin_edges, first, last', bin). nat (last' - first + 1))"
    using c_div_2_bounds[of first last'] by simp
next
  fix h :: heap and x :: fType and n_bins :: int and bin_edges :: devptr
    and first last' :: int and bin :: "int option" and xa :: int
  assume "first \<le> last'" and "xa = c_div (first + last') 2"
  then show "((h, x, n_bins, bin_edges, first, xa - 1, Some xa),
              h, x, n_bins, bin_edges, first, last', bin)
       \<in> measure (\<lambda>(h, x, n_bins, bin_edges, first, last', bin). nat (last' - first + 1))"
    using c_div_2_bounds[of first last'] by simp
qed

declare GetBin_loop.simps [simp del]

definition GetBin :: "heap \<Rightarrow> fType \<Rightarrow> int \<Rightarrow> devptr \<Rightarrow> int option" where
  "GetBin h x n_bins bin_edges = GetBin_loop h x n_bins bin_edges 0 (n_bins - 1) None"

subsection \<open>The kernel: \<^verbatim>\<open>Hist2D\<close>\<close>

text \<open>
  \<^verbatim>\<open>int idx = threadIdx.x + blockDim.x * blockIdx.x\<close>: the built-in indices are
  \<^verbatim>\<open>unsigned int\<close>, so the sum is taken modulo \<open>2 ^ 32\<close> and then read as a signed
  32-bit value.
\<close>

definition to_int32 :: "nat \<Rightarrow> int" where
  "to_int32 u = (if u mod 2 ^ 32 < 2 ^ 31 then int (u mod 2 ^ 32) else int (u mod 2 ^ 32) - 2 ^ 32)"

definition thread_idx :: "nat \<Rightarrow> nat \<Rightarrow> nat \<Rightarrow> int" where
  "thread_idx threadIdx_x blockDim_x blockIdx_x = to_int32 (threadIdx_x + blockDim_x * blockIdx_x)"

text \<open>\<^verbatim>\<open>a && b\<close> on reads that may fault: \<open>b\<close> is evaluated only when \<open>a\<close> is true.\<close>

definition and_then :: "bool option \<Rightarrow> bool option \<Rightarrow> bool option" where
  "and_then a b = (case a of None \<Rightarrow> None | Some False \<Rightarrow> Some False | Some True \<Rightarrow> b)"

text \<open>The range test of line 59, in the source's order of evaluation.\<close>

definition in_range ::
  "heap \<Rightarrow> fType \<Rightarrow> fType \<Rightarrow> int \<Rightarrow> int \<Rightarrow> devptr \<Rightarrow> devptr \<Rightarrow> bool option" where
  "in_range h x y n_bins_x n_bins_y bin_edges_x bin_edges_y =
     and_then (map_option (\<lambda>e. x \<ge> e) (ld h bin_edges_x 0))
       (and_then (map_option (\<lambda>e. x \<le> e) (ld h bin_edges_x n_bins_x))
          (and_then (map_option (\<lambda>e. y \<ge> e) (ld h bin_edges_y 0))
             (map_option (\<lambda>e. y \<le> e) (ld h bin_edges_y n_bins_y))))"

text \<open>One worker of the kernel: its effect on device memory.\<close>

definition Hist2D ::
  "nat \<Rightarrow> nat \<Rightarrow> nat \<Rightarrow> devptr \<Rightarrow> devptr \<Rightarrow> devptr \<Rightarrow> int \<Rightarrow> devptr \<Rightarrow> int \<Rightarrow> int \<Rightarrow>
   devptr \<Rightarrow> devptr \<Rightarrow> heap \<Rightarrow> heap option" where
  "Hist2D threadIdx_x blockDim_x blockIdx_x X Y W n_evts hist n_bins_x n_bins_y
      bin_edges_x bin_edges_y h =
     (let idx = thread_idx threadIdx_x blockDim_x blockIdx_x in
      if idx < n_evts then
        do {
          x \<leftarrow> ld h X idx;
          y \<leftarrow> ld h Y idx;
          ok \<leftarrow> in_range h x y n_bins_x n_bins_y bin_edges_x bin_edges_y;
          if ok then
            do {
              bin_x \<leftarrow> GetBin h x n_bins_x bin_edges_x;
              bin_y \<leftarrow> GetBin h y n_bins_y bin_edges_y;
              w \<leftarrow> ld h W idx;
              atomicAdd h hist (bin_y + bin_x * n_bins_y) w
            }
          else Some h
        }
      else Some h)"

text \<open>
  A launch with \<open>grid = (gdim, 1)\<close> and \<open>block = (bdim, 1, 1)\<close> runs \<open>gdim\<close> blocks of
  \<open>bdim\<close> workers each; an empty grid or block is refused by the driver.
\<close>

fun run_workers ::
  "(nat \<Rightarrow> nat \<Rightarrow> nat \<Rightarrow> heap \<Rightarrow> heap option) \<Rightarrow> nat \<Rightarrow> (nat \<times> nat) list \<Rightarrow> heap \<Rightarrow> heap option" where
  "run_workers k bdim [] h = Some h"
| "run_workers k bdim ((b, t) # ws) h =
     (case k t bdim b h of None \<Rightarrow> None | Some h' \<Rightarrow> run_workers k bdim ws h')"

definition launch ::
  "(nat \<Rightarrow> nat \<Rightarrow> nat \<Rightarrow> heap \<Rightarrow> heap option) \<Rightarrow> nat \<Rightarrow> int \<Rightarrow> heap \<Rightarrow> heap option" where
  "launch k bdim gdim h =
     (if gdim \<le> 0 \<or> bdim = 0 then None
      else run_workers k bdim (List.product [0..<nat gdim] [0..<bdim]) h)"

subsection \<open>The events of a launch\<close>

text \<open>
  What one worker of \<^verbatim>\<open>Hist2D\<close> adds, read off the memory \<open>h\<close> the launch starts from:
  \<open>evt_bin\<close> is the flat index \<^verbatim>\<open>bin_y + bin_x * n_bins_y\<close> of event \<open>i\<close> when the range
  test of the kernel passes, and \<open>None\<close> when the event is out of range; \<open>add_evt\<close> adds
  the event's weight to that bin of the histogram array.
\<close>

definition evt_bin ::
  "heap \<Rightarrow> devptr \<Rightarrow> devptr \<Rightarrow> int \<Rightarrow> int \<Rightarrow> devptr \<Rightarrow> devptr \<Rightarrow> int \<Rightarrow> int option" where
  "evt_bin h X Y n_bins_x n_bins_y bin_edges_x bin_edges_y i =
     do {
       x \<leftarrow> ld h X i;
       y \<leftarrow> ld h Y i;
       ok \<leftarrow> in_range h x y n_bins_x n_bins_y bin_edges_x bin_edges_y;
       if ok then
         do {
           bin_x \<leftarrow> GetBin h x n_bins_x bin_edges_x;
           bin_y \<leftarrow> GetBin h y n_bins_y bin_edges_y;
           Some (bin_y + bin_x * n_bins_y)
         }
       else None
     }"

definition add_evt ::
  "heap \<Rightarrow> devptr \<Rightarrow> devptr \<Rightarrow> fType list \<Rightarrow> int \<Rightarrow> int \<Rightarrow> devptr \<Rightarrow> devptr \<Rightarrow>
   fType list \<Rightarrow> int \<Rightarrow> fType list" where
  "add_evt h X Y ws n_bins_x n_bins_y bin_edges_x bin_edges_y hb i =
     (case evt_bin h X Y n_bins_x n_bins_y bin_edges_x bin_edges_y i of
        None \<Rightarrow> hb
      | Some k \<Rightarrow> hb[nat k := hb ! nat k + ws ! nat i])"

text \<open>The events \<open>0, \<dots>, n_evts - 1\<close> added one after the other to a histogram array.\<close>

definition add_evts ::
  "heap \<Rightarrow> devptr \<Rightarrow> devptr \<Rightarrow> fType list \<Rightarrow> int \<Rightarrow> int \<Rightarrow> devptr \<Rightarrow> devptr \<Rightarrow>
   int \<Rightarrow> fType list \<Rightarrow> fType list" where
  "add_evts h X Y ws n_bins_x n_bins_y bin_edges_x bin_edges_y n_evts hb =
     foldl (add_evt h X Y ws n_bins_x n_bins_y bin_edges_x bin_edges_y) hb
       (map int [0..<nat n_evts])"

subsection \<open>The class \<^verbatim>\<open>GPUhist\<close>\<close>

record GPUhist =
  n_bins_x :: int
  n_bins_y :: int
  hist2d :: "fType list"
  d_hist2d :: devptr
  d_bin_edges_x :: devptr
  d_bin_edges_y :: devptr

text \<open>\<^verbatim>\<open>np.ravel(np.zeros((n_bins_x, n_bins_y)))\<close>: a negative dimension raises.\<close>

definition zeros_ravel :: "int \<Rightarrow> int \<Rightarrow> fType list option" where
  "zeros_ravel nx ny = (if nx < 0 \<or> ny < 0 then None else Some (replicate (nat (nx * ny)) 0))"

text \<open>\<^verbatim>\<open>a.reshape(nx, ny)\<close> of a flat array, as the list of its rows.\<close>

definition reshape2 :: "int \<Rightarrow> int \<Rightarrow> fType list \<Rightarrow> fType list list option" where
  "reshape2 nx ny a =
     (if 0 \<le> nx \<and> 0 \<le> ny \<and> int (length a) = nx * ny
      then Some (map (\<lambda>i. take (nat ny) (drop (i * nat ny) a)) [0..<nat nx])
      else None)"

definition GPUhist_init :: "device \<Rightarrow> fType list \<Rightarrow> fType list \<Rightarrow> (GPUhist \<times> device) option" where
  "GPUhist_init dev bin_edges_x bin_edges_y =
     (let nx = int (length bin_edges_x) - 1;
          ny = int (length bin_edges_y) - 1 in
      do {
        hist \<leftarrow> zeros_ravel nx ny;
        (p_hist, dev1) \<leftarrow> mem_alloc dev (length hist);
        (p_ex, dev2) \<leftarrow> mem_alloc dev1 (length bin_edges_x);
        (p_ey, dev3) \<leftarrow> mem_alloc dev2 (length bin_edges_y);
        dev4 \<leftarrow> memcpy_htod dev3 p_hist hist;
        dev5 \<leftarrow> memcpy_htod dev4 p_ex bin_edges_x;
        dev6 \<leftarrow> memcpy_htod dev5 p_ey bin_edges_y;
        Some (\<lparr>n_bins_x = nx, n_bins_y = ny, hist2d = hist, d_hist2d = p_hist,
                d_bin_edges_x = p_ex, d_bin_edges_y = p_ey\<rparr>, dev6)
      })"

definition clear :: "GPUhist \<Rightarrow> device \<Rightarrow> (GPUhist \<times> device) option" where
  "clear self dev =
     do {
       z \<leftarrow> zeros_ravel (n_bins_x self) (n_bins_y self);
       dev' \<leftarrow> memcpy_htod dev (d_hist2d self) z;
       Some (self\<lparr>hist2d := z\<rparr>, dev')
     }"

definition get_hist ::
  "GPUhist \<Rightarrow> device \<Rightarrow> int \<Rightarrow> devptr \<Rightarrow> devptr \<Rightarrow> devptr \<Rightarrow>
   (fType list list \<times> GPUhist \<times> device) option" where
  "get_hist self dev n_evts d_x d_y d_w =
     (let bdim = 256;
          dx = n_evts div int bdim;
          mx = n_evts mod int bdim;
          gdim = (dx + (if mx > 0 then 1 else 0)) * int bdim in
      do {
        (self1, dev1) \<leftarrow> clear self dev;
        h \<leftarrow> launch (\<lambda>t bd b. Hist2D t bd b d_x d_y d_w n_evts (d_hist2d self1)
                       (n_bins_x self1) (n_bins_y self1)
                       (d_bin_edges_x self1) (d_bin_edges_y self1))
               bdim gdim (mem dev1);
        hst \<leftarrow> memcpy_dtoh (dev1\<lparr>mem := h\<rparr>) (length (hist2d self1)) (d_hist2d self1);
        r \<leftarrow> reshape2 (n_bins_x self1) (n_bins_y self1) hst;
        Some (r, self1\<lparr>hist2d := hst\<rparr>, dev1\<lparr>mem := h\<rparr>)
      })"

text \<open>
  What \<^verbatim>\<open>__init__\<close> establishes and every method keeps: the bin counts are those of the
  edge arrays on the device, there is at least one bin in each dimension, the histogram
  allocation has one cell per bin and is not one of the edge allocations.
\<close>

definition GPUhist_inv :: "GPUhist \<Rightarrow> device \<Rightarrow> fType list \<Rightarrow> fType list \<Rightarrow> bool" where
  "GPUhist_inv self dev ex ey \<longleftrightarrow>
     n_bins_x self = int (length ex) - 1 \<and> n_bins_y self = int (length ey) - 1 \<and>
     1 \<le> n_bins_x self \<and> 1 \<le> n_bins_y self \<and>
     mem dev (d_bin_edges_x self) = Some ex \<and> mem dev (d_bin_edges_y self) = Some ey \<and>
     map_option length (mem dev (d_hist2d self)) = Some (nat (n_bins_x self * n_bins_y self)) \<and>
     length (hist2d self) = nat (n_bins_x self * n_bins_y self) \<and>
     d_hist2d self \<noteq> d_bin_edges_x self \<and> d_hist2d self \<noteq> d_bin_edges_y self"

text \<open>The histogram array a pass leaves on the device: all events added to zeros.\<close>

definition hist_of ::
  "GPUhist \<Rightarrow> heap \<Rightarrow> int \<Rightarrow> devptr \<Rightarrow> devptr \<Rightarrow> fType list \<Rightarrow> fType list" where
  "hist_of self h n_evts d_x d_y ws =
     add_evts h d_x d_y ws (n_bins_x self) (n_bins_y self)
       (d_bin_edges_x self) (d_bin_edges_y self) n_evts
       (replicate (nat (n_bins_x self * n_bins_y self)) 0)"

text \<open>Event \<open>i\<close> of a sample lies within the edges of both dimensions (both ends
  included), as the range test of the kernel asks.\<close>

definition evt_in_range :: "fType list \<Rightarrow> fType list \<Rightarrow> fType list \<Rightarrow> fType list \<Rightarrow> nat \<Rightarrow> bool" where
  "evt_in_range ex ey xs ys i \<longleftrightarrow>
     ex ! 0 \<le> xs ! i \<and> xs ! i \<le> ex ! (length ex - 1) \<and>
     ey ! 0 \<le> ys ! i \<and> ys ! i \<le> ey ! (length ey - 1)"

subsection \<open>A small example\<close>

text \<open>
  Device memory with a sample of three events at pointers 0 (x), 1 (y) and 2 (weights),
  a zeroed histogram of \<open>2 \<times> 2\<close> bins at pointer 3 and the edges \<open>[0, 1, 2]\<close> of both
  dimensions at pointers 4 and 5. The first event lies in bin \<open>(0, 1)\<close>, the second sits
  on the last edge of both dimensions, the third is out of range in x.
\<close>

definition ex_heap :: heap where
  "ex_heap = [0 \<mapsto> [1/2, 2, -1/2], 1 \<mapsto> [3/2, 2, 1], 2 \<mapsto> [1, 2, 4],
              3 \<mapsto> [0, 0, 0, 0], 4 \<mapsto> [0, 1, 2], 5 \<mapsto> [0, 1, 2]]"

text \<open>The same memory as the device of a \<^verbatim>\<open>GPUhist\<close> object built for these edges after
  the sample was allocated.\<close>

definition ex_dev :: device where
  "ex_dev = \<lparr>mem = ex_heap, next_ptr = 6\<rparr>"

definition ex_self :: GPUhist where
  "ex_self = \<lparr>n_bins_x = 2, n_bins_y = 2, hist2d = [0, 0, 0, 0], d_hist2d = 3,
               d_bin_edges_x = 4, d_bin_edges_y = 5\<rparr>"

section \<open>The histogram stage of \<^verbatim>\<open>pisa/stages/utils/hist.py\<close>\<close>

text \<open>
  The stage keeps, for every container of its data, a transform built once in
  \<^verbatim>\<open>setup_function\<close> and turns weights into a histogram with it in \<^verbatim>\<open>apply_function\<close>.
  Arrays are flat lists of reals (row-major), Python exceptions are values of
  \<open>py_error\<close>, and a function that raises returns the error together with the stage as it
  is at that moment, since an exception does not undo the assignments made before it.
\<close>

subsection \<open>Binnings and histograms\<close>

text \<open>
  Modelled from the spec: \<^verbatim>\<open>pisa.core.binning.MultiDimBinning\<close> is not among the sources.
  A binning is the ordered list of its dimensions, each a name and its edges; \<^verbatim>\<open>.names\<close>
  lists the names and \<^verbatim>\<open>+\<close> concatenates the dimensions (spec 3 and 4.3).
\<close>

record Dimension =
  dim_name :: string
  edges :: "fType list"

type_synonym MultiDimBinning = "Dimension list"

definition names :: "MultiDimBinning \<Rightarrow> string list" where
  "names b = map dim_name b"

definition num_bins :: "Dimension \<Rightarrow> nat" where
  "num_bins d = length (edges d) - 1"

definition total_bins :: "MultiDimBinning \<Rightarrow> nat" where
  "total_bins b = prod_list (map num_bins b)"

text \<open>
  Modelled from the spec: \<^verbatim>\<open>pisa.core.translation.histogram\<close> is not among the sources.
  \<open>locate\<close> follows spec 4.1: out of range below the first or above the last edge,
  otherwise the bin with \<open>edges[bin] \<le> x < edges[bin+1]\<close>, the last edge belonging to the
  last bin. \<open>flat_index\<close> is the row-major combination of the indices of all
  dimensions, out of range as soon as one dimension is. \<open>histogram\<close> follows spec 4.2:
  a zero array of \<open>total_bins\<close> cells to which every in-range event adds its weight
  (weight one when no weights are given); arrays of unequal length are a shape mismatch.
  Its fourth argument is the \<^verbatim>\<open>averaged\<close> of the calls in the source (lines 51, 109 and
  112, always \<^verbatim>\<open>False\<close> there): when set, a bin holds the mean instead of the sum of the
  weights of its events, and zero when it has no event.
\<close>

definition locate :: "fType \<Rightarrow> fType list \<Rightarrow> nat option" where
  "locate x es =
     (let n = length es - 1 in
      if length es < 2 \<or> x < es ! 0 \<or> x > es ! n then None
      else if x = es ! n then Some (n - 1)
      else find (\<lambda>b. es ! b \<le> x \<and> x < es ! (b + 1)) [0..<n])"

fun flat_index :: "MultiDimBinning \<Rightarrow> fType list \<Rightarrow> nat option" where
  "flat_index [] [] = Some 0"
| "flat_index (d # ds) (x # xs) =
     (case locate x (edges d) of
        None \<Rightarrow> None
      | Some i \<Rightarrow>
          (case flat_index ds xs of
             None \<Rightarrow> None
           | Some r \<Rightarrow> Some (i * total_bins ds + r)))"
| "flat_index _ _ = None"

datatype py_error =
  AssertionError | AttributeError | KeyError | ValueError | UnsupportedRepresentationTransition

definition event :: "fType list list \<Rightarrow> nat \<Rightarrow> fType list" where
  "event sample e = map (\<lambda>col. col ! e) sample"

definition accumulate ::
  "fType list list \<Rightarrow> fType list \<Rightarrow> MultiDimBinning \<Rightarrow> fType list" where
  "accumulate sample weights binning =
     foldl (\<lambda>h e. case flat_index binning (event sample e) of
                     None \<Rightarrow> h
                   | Some k \<Rightarrow> h[k := h ! k + weights ! e])
       (replicate (total_bins binning) 0) [0..<length weights]"

definition histogram ::
  "fType list list \<Rightarrow> fType list option \<Rightarrow> MultiDimBinning \<Rightarrow> bool \<Rightarrow> py_error + fType list" where
  "histogram sample weights binning averaged =
     (case sample of
        [] \<Rightarrow> Inl ValueError
      | col # cols \<Rightarrow>
          let w = (case weights of None \<Rightarrow> replicate (length col) 1 | Some ws \<Rightarrow> ws) in
          if length sample \<noteq> length binning \<or> (\<exists>c \<in> set sample. length c \<noteq> length w)
          then Inl ValueError
          else if averaged
          then Inr (map2 (\<lambda>s n. if n = 0 then 0 else s / n)
                      (accumulate sample w binning)
                      (accumulate sample (replicate (length w) 1) binning))
          else Inr (accumulate sample w binning))"

subsection \<open>Containers\<close>

text \<open>
  Modelled from the spec: \<^verbatim>\<open>pisa.core.container\<close> is not among the sources. A container
  has a current representation and named attributes; each attribute stores its own
  representation tag and data (spec 4.4). \<^verbatim>\<open>container[key] = a\<close> stores \<open>a\<close> under the current
  representation and touches no other attribute. \<^verbatim>\<open>container[key]\<close> returns the data when
  the attribute is stored in the current representation; an attribute stored per event
  and read in a binned representation is binned on the way, by \<open>histogram\<close> over the
  per-event coordinates of the dimensions of that binning with the attribute as weights
  (events to binned invokes the accumulator); every other transition (binned to events,
  one binning to another) fails, and so does a read of an attribute that does not exist.
  The spec does not say whether a bin of the binned view holds the sum or the mean of
  the attribute over the events of the bin: it is the argument \<^verbatim>\<open>averaged\<close> of \<open>histogram\<close>,
  and the container carries the value it passes (\<open>averaged_view\<close>). Setting the
  representation of the container set sets it in every container.
\<close>

datatype mode = Events | Binned MultiDimBinning | NoMode

record Container =
  representation :: mode
  averaged_view :: bool
  attrs :: "string \<rightharpoonup> (mode \<times> fType list)"

definition event_array :: "Container \<Rightarrow> string \<Rightarrow> py_error + fType list" where
  "event_array c key =
     (case attrs c key of
        None \<Rightarrow> Inl KeyError
      | Some (tag, a) \<Rightarrow>
          if tag = Events then Inr a else Inl UnsupportedRepresentationTransition)"

fun event_arrays :: "Container \<Rightarrow> string list \<Rightarrow> py_error + fType list list" where
  "event_arrays c [] = Inr []"
| "event_arrays c (k # ks) =
     (case event_array c k of
        Inl e \<Rightarrow> Inl e
      | Inr a \<Rightarrow> (case event_arrays c ks of Inl e \<Rightarrow> Inl e | Inr as \<Rightarrow> Inr (a # as)))"

definition getitem :: "Container \<Rightarrow> string \<Rightarrow> py_error + fType list" where
  "getitem c key =
     (case attrs c key of
        None \<Rightarrow> Inl KeyError
      | Some (tag, a) \<Rightarrow>
          if tag = representation c then Inr a
          else (case tag of
                  Events \<Rightarrow>
                    (case representation c of
                       Binned b \<Rightarrow>
                         (case event_arrays c (names b) of
                            Inl e \<Rightarrow> Inl e
                          | Inr sample \<Rightarrow> histogram sample (Some a) b (averaged_view c))
                     | _ \<Rightarrow> Inl UnsupportedRepresentationTransition)
                | _ \<Rightarrow> Inl UnsupportedRepresentationTransition))"

definition setitem :: "Container \<Rightarrow> string \<Rightarrow> fType list \<Rightarrow> Container" where
  "setitem c key a = c\<lparr>attrs := (attrs c)(key \<mapsto> (representation c, a))\<rparr>"

definition set_representation :: "mode \<Rightarrow> Container list \<Rightarrow> Container list" where
  "set_representation m cs = map (\<lambda>c. c\<lparr>representation := m\<rparr>) cs"

fun getitems :: "Container \<Rightarrow> string list \<Rightarrow> py_error + fType list list" where
  "getitems c [] = Inr []"
| "getitems c (k # ks) =
     (case getitem c k of
        Inl e \<Rightarrow> Inl e
      | Inr a \<Rightarrow> (case getitems c ks of Inl e \<Rightarrow> Inl e | Inr as \<Rightarrow> Inr (a # as)))"

subsection \<open>The stage\<close>

record hist =
  calc_mode :: mode
  apply_mode :: mode
  error_method :: string
  transform_binning :: "MultiDimBinning option"
  data :: "Container list"

text \<open>One turn of the loop of \<^verbatim>\<open>setup_function\<close> (lines 47 to 55), for container \<open>k\<close>.\<close>

definition setup_container :: "MultiDimBinning \<Rightarrow> hist \<Rightarrow> nat \<Rightarrow> (py_error \<times> hist) + hist" where
  "setup_container tb self k =
     (let s1 = self\<lparr>data := set_representation Events (data self)\<rparr> in
      case getitems (data s1 ! k) (names tb) of
        Inl e \<Rightarrow> Inl (e, s1)
      | Inr sample \<Rightarrow>
          (case histogram sample None tb False of
             Inl e \<Rightarrow> Inl (e, s1)
           | Inr h \<Rightarrow>
               let s2 = s1\<lparr>data := set_representation (Binned tb) (data s1)\<rparr> in
               Inr (s2\<lparr>data := (data s2)[k := setitem (data s2 ! k) ''hist_transform'' h]\<rparr>)))"

fun for_containers ::
  "(hist \<Rightarrow> nat \<Rightarrow> (py_error \<times> hist) + hist) \<Rightarrow> nat list \<Rightarrow> hist \<Rightarrow> (py_error \<times> hist) + hist" where
  "for_containers body [] self = Inr self"
| "for_containers body (k # ks) self =
     (case body self k of Inl e \<Rightarrow> Inl e | Inr s \<Rightarrow> for_containers body ks s)"

definition setup_function :: "hist \<Rightarrow> (py_error \<times> hist) + hist" where
  "setup_function self =
     (case apply_mode self of
        Binned ab \<Rightarrow>
          (case calc_mode self of
             Binned cb \<Rightarrow>
               if set (names cb) \<inter> set (names ab) \<noteq> {} then Inl (AssertionError, self)
               else
                 let s = self\<lparr>transform_binning := Some (cb @ ab)\<rparr> in
                 for_containers (setup_container (cb @ ab)) [0..<length (data s)] s
           | _ \<Rightarrow> Inr self)
      | _ \<Rightarrow> Inl (AssertionError, self))"

text \<open>
  \<^verbatim>\<open>transform.reshape(weights.shape[0], -1)\<close> as the list of the rows, and
  \<^verbatim>\<open>weights @ transform\<close>, the sum of the rows scaled by the weights.
\<close>

definition reshape_rows :: "nat \<Rightarrow> fType list \<Rightarrow> py_error + fType list list" where
  "reshape_rows n a =
     (if n = 0 \<or> length a mod n \<noteq> 0 then Inl ValueError
      else Inr (map (\<lambda>i. take (length a div n) (drop (i * (length a div n)) a)) [0..<n]))"

definition matmul :: "fType list \<Rightarrow> fType list list \<Rightarrow> fType list" where
  "matmul w rows =
     foldl (\<lambda>acc (wi, row). map2 (+) acc (map ((*) wi) row))
       (replicate (length (hd rows)) 0) (zip w rows)"

definition square :: "fType list \<Rightarrow> fType list" where
  "square w = map (\<lambda>x. x * x) w"

text \<open>One turn of the first loop of \<^verbatim>\<open>apply_function\<close> (lines 78 to 99).\<close>

definition apply_binned :: "hist \<Rightarrow> nat \<Rightarrow> (py_error \<times> hist) + hist" where
  "apply_binned self k =
     (let s1 = self\<lparr>data := (data self)[k := (data self ! k)\<lparr>representation := calc_mode self\<rparr>]\<rparr> in
      case getitem (data s1 ! k) ''weights'' of
        Inl e \<Rightarrow> Inl (e, s1)
      | Inr weights \<Rightarrow>
          (case transform_binning s1 of
             None \<Rightarrow> Inl (AttributeError, s1)
           | Some tb \<Rightarrow>
               let s2 = s1\<lparr>data := set_representation (Binned tb) (data s1)\<rparr> in
               case getitem (data s2 ! k) ''hist_transform'' of
                 Inl e \<Rightarrow> Inl (e, s2)
               | Inr transform \<Rightarrow>
                   (case reshape_rows (length weights) transform of
                      Inl e \<Rightarrow> Inl (e, s2)
                    | Inr rows \<Rightarrow>
                        let h = matmul weights rows;
                            sumw2 = matmul (square weights) rows;
                            c1 = (data s2 ! k)\<lparr>representation := apply_mode s2\<rparr>;
                            c2 = setitem c1 ''weights'' h;
                            c3 = (if error_method s2 = ''sumw2''
                                  then setitem c2 ''errors'' (map sqrt sumw2) else c2)
                        in Inr (s2\<lparr>data := (data s2)[k := c3]\<rparr>))))"

text \<open>One turn of the second loop (lines 102 to 119), the direct histogram of the events.\<close>

definition apply_events :: "hist \<Rightarrow> nat \<Rightarrow> (py_error \<times> hist) + hist" where
  "apply_events self k =
     (let s1 = self\<lparr>data := (data self)[k := (data self ! k)\<lparr>representation := calc_mode self\<rparr>]\<rparr> in
      case apply_mode s1 of
        Binned ab \<Rightarrow>
          (case getitems (data s1 ! k) (names ab) of
             Inl e \<Rightarrow> Inl (e, s1)
           | Inr sample \<Rightarrow>
               (case getitem (data s1 ! k) ''weights'' of
                  Inl e \<Rightarrow> Inl (e, s1)
                | Inr weights \<Rightarrow>
                    (case histogram sample (Some weights) ab False of
                       Inl e \<Rightarrow> Inl (e, s1)
                     | Inr h \<Rightarrow>
                         (case (if error_method s1 = ''sumw2''
                                then map_sum id Some (histogram sample (Some (square weights)) ab False)
                                else Inr None) of
                            Inl e \<Rightarrow> Inl (e, s1)
                          | Inr sumw2 \<Rightarrow>
                              let c1 = (data s1 ! k)\<lparr>representation := apply_mode s1\<rparr>;
                                  c2 = setitem c1 ''weights'' h;
                                  c3 = (case sumw2 of None \<Rightarrow> c2
                                        | Some s \<Rightarrow> setitem c2 ''errors'' (map sqrt s))
                              in Inr (s1\<lparr>data := (data s1)[k := c3]\<rparr>)))))
      | _ \<Rightarrow> Inl (AttributeError, s1))"

definition apply_function :: "hist \<Rightarrow> (py_error \<times> hist) + hist" where
  "apply_function self =
     (case calc_mode self of
        Binned cb \<Rightarrow> for_containers apply_binned [0..<length (data self)] self
      | Events \<Rightarrow> for_containers apply_events [0..<length (data self)] self
      | NoMode \<Rightarrow> Inr self)"

text \<open>
  Modelled from the spec: the driver of a stage (\<^verbatim>\<open>pisa.core.stage\<close>, not among the
  sources) sets the stage up once and then applies it once per iteration of the fit; an
  error ends the run (spec 7).
\<close>

fun iterate_apply :: "nat \<Rightarrow> hist \<Rightarrow> (py_error \<times> hist) + hist" where
  "iterate_apply 0 self = Inr self"
| "iterate_apply (Suc n) self =
     (case apply_function self of Inl e \<Rightarrow> Inl e | Inr s \<Rightarrow> iterate_apply n s)"

definition run_stage :: "nat \<Rightarrow> hist \<Rightarrow> (py_error \<times> hist) + hist" where
  "run_stage n self =
     (case setup_function self of Inl e \<Rightarrow> Inl e | Inr s \<Rightarrow> iterate_apply n s)"

text \<open>What a run has left under \<^verbatim>\<open>'weights'\<close> in container \<open>k\<close>, when it returns.\<close>

definition stored_weights :: "(py_error \<times> hist) + hist \<Rightarrow> nat \<Rightarrow> (mode \<times> fType list) option" where
  "stored_weights r k = (case r of Inl e \<Rightarrow> None | Inr s \<Rightarrow> attrs (data s ! k) ''weights'')"

subsection \<open>The product of the spec\<close>

text \<open>
  The vector-matrix product \<open>weights \<cdot> transform\<close> as the spec words it (4.3), for a
  transform stored flat with \<open>m\<close> columns: cell \<open>j\<close> of the result is the sum over the rows
  \<open>i\<close> of \<open>weights[i] * transform[i][j]\<close>. The code's \<open>matmul\<close> is compared with it.
\<close>

definition weights_dot_transform :: "fType list \<Rightarrow> fType list \<Rightarrow> nat \<Rightarrow> fType list" where
  "weights_dot_transform w T m = map (\<lambda>j. \<Sum>i<length w. w ! i * T ! (i * m + j)) [0..<m]"

text \<open>The attributes of a container after its turn of the first loop of
  \<^verbatim>\<open>apply_function\<close>: the histogram under \<^verbatim>\<open>'weights'\<close> and, for \<^verbatim>\<open>'sumw2'\<close>, the square roots
  of the sums of squared weights under \<^verbatim>\<open>'errors'\<close>, both tagged with the apply mode.\<close>

definition applied_attrs ::
  "hist \<Rightarrow> Container \<Rightarrow> fType list \<Rightarrow> fType list \<Rightarrow> nat \<Rightarrow> (string \<rightharpoonup> (mode \<times> fType list))" where
  "applied_attrs self c w T m =
     (if error_method self = ''sumw2''
      then (attrs c)
             (''weights'' \<mapsto> (apply_mode self, weights_dot_transform w T m),
              ''errors'' \<mapsto>
                 (apply_mode self, map sqrt (weights_dot_transform (map (\<lambda>x. x\<^sup>2) w) T m)))
      else (attrs c)(''weights'' \<mapsto> (apply_mode self, weights_dot_transform w T m)))"

text \<open>
  The weight an event carries when the weights are given per bin of the calculation
  binning: the weight of the bin of the calculation binning the event falls in, and none
  when it falls outside that binning. \<open>sample\<close> holds the coordinates of the events along
  the dimensions of the calculation binning, \<open>n\<close> is the number of events.
\<close>

definition calc_bin_weights ::
  "MultiDimBinning \<Rightarrow> fType list list \<Rightarrow> fType list \<Rightarrow> nat \<Rightarrow> fType list" where
  "calc_bin_weights cb sample w n =
     map (\<lambda>e. case flat_index cb (event sample e) of None \<Rightarrow> 0 | Some c \<Rightarrow> w ! c) [0..<n]"

subsection \<open>A small stage\<close>

text \<open>
  Three events over two bins of the calculation binning and two bins of the apply
  binning: the first two share the first calculation bin and fall in different apply
  bins, the third is in the second bin of both. The container holds the coordinates and
  one weight per event, and bins by the mean.
\<close>

definition cbin :: MultiDimBinning where
  "cbin = [\<lparr>dim_name = ''true_e'', edges = [0, 1, 2]\<rparr>]"

definition abin :: MultiDimBinning where
  "abin = [\<lparr>dim_name = ''reco_e'', edges = [0, 1, 2]\<rparr>]"

definition ex_container :: Container where
  "ex_container = \<lparr>representation = Events, averaged_view = True,
     attrs = [''true_e'' \<mapsto> (Events, [1/2, 1/2, 3/2]),
              ''reco_e'' \<mapsto> (Events, [1/2, 3/2, 3/2]),
              ''weights'' \<mapsto> (Events, [1, 2, 4])]\<rparr>"

definition ex_stage :: hist where
  "ex_stage = \<lparr>calc_mode = Binned cbin, apply_mode = Binned abin, error_method = ''sumw2'',
               transform_binning = None, data = [ex_container]\<rparr>"

text \<open>The stage after \<^verbatim>\<open>setup_function\<close>: the transform counts the events per cell of the
  calculation binning followed by the apply binning.\<close>

definition ex_ready :: hist where
  "ex_ready = ex_stage\<lparr>transform_binning := Some (cbin @ abin),
       data := [\<lparr>representation = Binned (cbin @ abin), averaged_view = True,
                 attrs = (attrs ex_container)
                   (''hist_transform'' \<mapsto> (Binned (cbin @ abin), [1, 1, 0, 1]))\<rparr>]\<rparr>"

text \<open>The same stage with a container that bins by the sum.\<close>

definition ex_stage_sum :: hist where
  "ex_stage_sum = ex_stage\<lparr>data := [ex_container\<lparr>averaged_view := False\<rparr>]\<rparr>"

section \<open>Properties of the device histogrammer\<close>

subsection \<open>The binary search\<close>

text \<open>Strictly increasing edges, read at \<^verbatim>\<open>int\<close> positions.\<close>



lemma edges_strict:
  "sorted_wrt (<) (e::real list) \<Longrightarrow> 0 \<le> i \<Longrightarrow> i < j \<Longrightarrow> j < int (length e) \<Longrightarrow> e ! nat i < e ! nat j"
  by (simp add: sorted_wrt_iff_nth_less)

lemma edges_mono:
  "sorted_wrt (<) (e::real list) \<Longrightarrow> 0 \<le> i \<Longrightarrow> i \<le> j \<Longrightarrow> j < int (length e) \<Longrightarrow> e ! nat i \<le> e ! nat j"
  using edges_strict[of e i j] by (cases "i = j") auto

lemma ld_Some: "h p = Some e \<Longrightarrow> 0 \<le> i \<Longrightarrow> i < int (length e) \<Longrightarrow> ld h p i = Some (e ! nat i)"
  by (simp add: ld_def)

lemma GetBin_loop_correct:
  assumes "h p = Some e" "int (length e) = n + 1" "sorted_wrt (<) e"
    and "0 \<le> first" "first \<le> n - 1" "-1 \<le> last'" "last' \<le> n - 1"
    and "e ! nat first \<le> x"
    and "x < e ! nat (last' + 1) \<or> (last' = n - 1 \<and> x \<le> e ! nat n)"
  shows "\<exists>b. GetBin_loop h x n p first last' bin = Some b \<and> first \<le> b \<and> b \<le> last'
            \<and> e ! nat b \<le> x \<and> (x < e ! nat (b + 1) \<or> (b = n - 1 \<and> x \<le> e ! nat n))"
  using assms
proof (induction h x n p first last' bin rule: GetBin_loop.induct)
  case (1 h x n p first last' bin)
  note hp = "1.prems"(1) and len = "1.prems"(2) and srt = "1.prems"(3)
    and f0 = "1.prems"(4) and fn = "1.prems"(5) and l0 = "1.prems"(6) and ln = "1.prems"(7)
    and lo = "1.prems"(8) and up = "1.prems"(9)
  have fl: "first \<le> last'"
  proof (rule ccontr)
    assume "\<not> first \<le> last'"
    then have lt: "last' + 1 \<le> first" by simp
    have "e ! nat (last' + 1) \<le> e ! nat first"
      using edges_mono[OF srt, of "last' + 1" first] l0 fn len lt by simp
    with lo up lt \<open>\<not> first \<le> last'\<close> fn ln show False by auto
  qed
  define m where "m = c_div (first + last') 2"
  have mb: "first \<le> m" "m \<le> last'" using c_div_2_bounds[OF fl] by (simp_all add: m_def)
  have rdm: "ld h p m = Some (e ! nat m)" using hp len f0 ln mb by (intro ld_Some) auto
  have rdm1: "ld h p (m + 1) = Some (e ! nat (m + 1))" using hp len f0 ln mb by (intro ld_Some) auto
  have rdn: "ld h p n = Some (e ! nat n)" using hp len f0 fn by (intro ld_Some) auto
  show ?case
  proof (cases "x \<ge> e ! nat m")
    case ge: True
    show ?thesis
    proof (cases "x < e ! nat (m + 1)")
      case True
      then show ?thesis
        using ge fl mb rdm rdm1 by (subst GetBin_loop.simps) (simp add: m_def[symmetric] Let_def)
    next
      case nlt: False
      show ?thesis
      proof (cases "x \<le> e ! nat n \<and> m = n - 1")
        case True
        then show ?thesis
          using ge nlt fl mb rdm rdm1 rdn
          by (subst GetBin_loop.simps) (simp add: m_def[symmetric] Let_def)
      next
        case False
        have mn: "m < n - 1"
        proof (rule ccontr)
          assume "\<not> m < n - 1"
          then have mn1: "m = n - 1" using mb ln by simp
          then have "last' = n - 1" using mb ln by simp
          with False nlt up mn1 show False by auto
        qed
        have IH: "\<exists>b. GetBin_loop h x n p (m + 1) last' (Some m) = Some b \<and> m + 1 \<le> b \<and> b \<le> last'
            \<and> e ! nat b \<le> x \<and> (x < e ! nat (b + 1) \<or> (b = n - 1 \<and> x \<le> e ! nat n))"
          apply (rule "1.IH"(1)[OF fl m_def rdm ge rdm1 nlt rdn False])
          using hp len srt f0 ln l0 mb mn nlt up by auto
        then show ?thesis
          using ge nlt False fl mb rdm rdm1 rdn
          by (subst GetBin_loop.simps) (auto simp add: m_def[symmetric] Let_def)
      qed
    qed
  next
    case lt: False
    have IH: "\<exists>b. GetBin_loop h x n p first (m - 1) (Some m) = Some b \<and> first \<le> b \<and> b \<le> m - 1
            \<and> e ! nat b \<le> x \<and> (x < e ! nat (b + 1) \<or> (b = n - 1 \<and> x \<le> e ! nat n))"
      apply (rule "1.IH"(2)[OF fl m_def rdm lt])
      using hp len srt f0 fn ln l0 mb lt lo by auto
    then show ?thesis
      using lt fl mb rdm
      by (subst GetBin_loop.simps) (auto simp add: m_def[symmetric] Let_def)
  qed
qed


lemma GetBin_correct:
  assumes hp: "h p = Some e" and len: "int (length e) = n + 1" and srt: "sorted_wrt (<) e"
    and n1: "1 \<le> n" and lo: "e ! 0 \<le> x" and up: "x \<le> e ! nat n"
  shows "\<exists>b. GetBin h x n p = Some b \<and> 0 \<le> b \<and> b < n
            \<and> e ! nat b \<le> x \<and> (x < e ! nat (b + 1) \<or> (b = n - 1 \<and> x = e ! nat n))"
proof -
  obtain b where b: "GetBin_loop h x n p 0 (n - 1) None = Some b" "0 \<le> b" "b \<le> n - 1"
      "e ! nat b \<le> x" "x < e ! nat (b + 1) \<or> (b = n - 1 \<and> x \<le> e ! nat n)"
    using GetBin_loop_correct[where h=h and p=p and e=e and n=n and first=0 and last'="n - 1"
        and x=x and bin=None] hp len srt n1 lo up by auto
  have "x < e ! nat (b + 1) \<or> (b = n - 1 \<and> x = e ! nat n)"
  proof (cases "x < e ! nat (b + 1)")
    case False
    with b(5) have bn: "b = n - 1" and "x \<le> e ! nat n" by auto
    with False have "x = e ! nat n" by simp
    with bn show ?thesis by simp
  qed simp
  with b show ?thesis unfolding GetBin_def by auto
qed

lemma bin_unique:
  assumes len: "int (length e) = n + 1" and srt: "sorted_wrt (<) (e::real list)"
    and b: "0 \<le> b" "b < n" "e ! nat b \<le> x" "x < e ! nat (b + 1) \<or> (b = n - 1 \<and> x = e ! nat n)"
    and k: "0 \<le> k" "k < n" "e ! nat k \<le> x" "x < e ! nat (k + 1) \<or> (k = n - 1 \<and> x = e ! nat n)"
  shows "b = k"
proof (rule ccontr)
  assume ne: "b \<noteq> k"
  have aux: False
    if c: "0 \<le> c" "c < n" "x < e ! nat (c + 1) \<or> (c = n - 1 \<and> x = e ! nat n)"
    and d: "d < n" "e ! nat d \<le> x" and cd: "c < d" for c d
  proof -
    have "e ! nat (c + 1) \<le> e ! nat d"
      using edges_mono[OF srt, of "c + 1" d] c d cd len by simp
    moreover have "c \<noteq> n - 1" using cd d by simp
    ultimately show False using c(3) d(2) by auto
  qed
  from ne consider "b < k" | "k < b" by linarith
  then show False
    using aux[of b k] aux[of k b] b k by cases auto
qed

subsection \<open>The kernel reads only what it is given\<close>

lemma ld_cong: "h p = h' p \<Longrightarrow> ld h p i = ld h' p i"
  by (simp add: ld_def)

lemma GetBin_loop_cong:
  "h p = h' p \<Longrightarrow> GetBin_loop h x n p f l b = GetBin_loop h' x n p f l b"
proof (induction h x n p f l b rule: GetBin_loop.induct)
  case (1 h x n p f l b)
  have eq: "ld h' p i = ld h p i" for i using "1.prems" by (simp add: ld_def)
  show ?case
    apply (subst GetBin_loop.simps[of h x n p f l b])
    apply (subst GetBin_loop.simps[of h' x n p f l b])
    using "1.IH" "1.prems"
    by (auto simp add: eq Let_def split: option.splits)
qed

lemma GetBin_cong: "h p = h' p \<Longrightarrow> GetBin h x n p = GetBin h' x n p"
  unfolding GetBin_def by (rule GetBin_loop_cong)

lemma in_range_cong:
  "h px = h' px \<Longrightarrow> h py = h' py \<Longrightarrow> in_range h x y nx ny px py = in_range h' x y nx ny px py"
  unfolding in_range_def by (simp add: ld_cong[of h px h'] ld_cong[of h py h'])

lemma evt_bin_cong:
  "h X = h' X \<Longrightarrow> h Y = h' Y \<Longrightarrow> h px = h' px \<Longrightarrow> h py = h' py \<Longrightarrow>
   evt_bin h X Y nx ny px py i = evt_bin h' X Y nx ny px py i"
  unfolding evt_bin_def
  by (simp add: ld_cong[of h X h'] ld_cong[of h Y h'] in_range_cong[of h px h' py]
      GetBin_cong[of h px h'] GetBin_cong[of h py h'] cong: if_cong)

lemma in_range_eval:
  assumes "h px = Some ex" "int (length ex) = nx + 1" "0 \<le> nx"
    and "h py = Some ey" "int (length ey) = ny + 1" "0 \<le> ny"
  shows "in_range h x y nx ny px py =
         Some (ex ! 0 \<le> x \<and> x \<le> ex ! nat nx \<and> ey ! 0 \<le> y \<and> y \<le> ey ! nat ny)"
  using assms unfolding in_range_def and_then_def ld_def by (auto split: bool.splits)


lemma flat_index_bounds:
  assumes "0 \<le> bx" "bx < nx" "0 \<le> by" "by < (ny::int)"
  shows "0 \<le> by + bx * ny \<and> by + bx * ny < nx * ny"
proof -
  have "bx * ny \<le> (nx - 1) * ny" using assms by (intro mult_right_mono) auto
  then have "by + bx * ny < nx * ny" using assms by (simp add: algebra_simps)
  moreover have "0 \<le> bx * ny" using assms by simp
  ultimately show ?thesis using assms by simp
qed

lemma evt_bin_bounds:
  assumes hx: "h px = Some ex" "int (length ex) = nx + 1" "sorted_wrt (<) ex" "1 \<le> nx"
    and hy: "h py = Some ey" "int (length ey) = ny + 1" "sorted_wrt (<) ey" "1 \<le> ny"
    and eb: "evt_bin h X Y nx ny px py i = Some k"
  shows "0 \<le> k \<and> k < nx * ny"
proof -
  from eb obtain x y where xy: "ld h X i = Some x" "ld h Y i = Some y"
    and ok: "in_range h x y nx ny px py = Some True"
    and k: "(GetBin h x nx px \<bind> (\<lambda>bx. GetBin h y ny py \<bind> (\<lambda>by. Some (by + bx * ny)))) = Some k"
    unfolding evt_bin_def by (auto simp: bind_eq_Some_conv split: if_splits)
  from ok have rng: "ex ! 0 \<le> x" "x \<le> ex ! nat nx" "ey ! 0 \<le> y" "y \<le> ey ! nat ny"
    using in_range_eval[where h=h and px=px and ex=ex and nx=nx and py=py and ey=ey and ny=ny
        and x=x and y=y] hx hy by auto
  from k obtain bx "by" where b: "GetBin h x nx px = Some bx" "GetBin h y ny py = Some by"
      "k = by + bx * ny"
    by (auto simp: bind_eq_Some_conv)
  have "0 \<le> bx \<and> bx < nx"
    using GetBin_correct[where h=h and p=px and e=ex and n=nx and x=x] hx rng b by auto
  moreover have "0 \<le> by \<and> by < ny"
    using GetBin_correct[where h=h and p=py and e=ey and n=ny and x=y] hy rng b by auto
  ultimately show ?thesis using flat_index_bounds[of bx nx "by" ny] b(3) by simp
qed

subsection \<open>One worker\<close>

lemma Hist2D_skip:
  "\<not> thread_idx t bd b < n_evts \<Longrightarrow>
   Hist2D t bd b X Y W n_evts hist nx ny px py h = Some h"
  by (simp add: Hist2D_def)

lemma Hist2D_step:
  assumes X: "h0 X = Some xs" and Y: "h0 Y = Some ys" and W: "h0 W = Some ws"
    and lens: "n_evts \<le> int (length xs)" "n_evts \<le> int (length ys)" "n_evts \<le> int (length ws)"
    and ex: "h0 px = Some ex" "int (length ex) = nx + 1" "sorted_wrt (<) ex" "1 \<le> nx"
    and ey: "h0 py = Some ey" "int (length ey) = ny + 1" "sorted_wrt (<) ey" "1 \<le> ny"
    and dis: "hist \<noteq> X" "hist \<noteq> Y" "hist \<noteq> W" "hist \<noteq> px" "hist \<noteq> py"
    and hb: "int (length hb) = nx * ny"
    and idx: "thread_idx t bd b = i" "0 \<le> i" "i < n_evts"
  shows "Hist2D t bd b X Y W n_evts hist nx ny px py (h0(hist \<mapsto> hb)) =
         Some (h0(hist \<mapsto> add_evt h0 X Y ws nx ny px py hb i))"
proof -
  let ?h = "h0(hist \<mapsto> hb)"
  have hX: "?h X = h0 X" and hY: "?h Y = h0 Y" and hW: "?h W = h0 W"
    and hpx: "?h px = h0 px" and hpy: "?h py = h0 py"
    using dis by simp_all
  have ldx: "ld ?h X i = Some (xs ! nat i)" using X lens idx dis by (simp add: ld_def)
  have ldy: "ld ?h Y i = Some (ys ! nat i)" using Y lens idx dis by (simp add: ld_def)
  have ldw: "ld ?h W i = Some (ws ! nat i)" using W lens idx dis by (simp add: ld_def)
  have ldx0: "ld h0 X i = Some (xs ! nat i)" using X lens idx by (simp add: ld_def)
  have ldy0: "ld h0 Y i = Some (ys ! nat i)" using Y lens idx by (simp add: ld_def)
  let ?x = "xs ! nat i" and ?y = "ys ! nat i"
  let ?ok = "ex ! 0 \<le> ?x \<and> ?x \<le> ex ! nat nx \<and> ey ! 0 \<le> ?y \<and> ?y \<le> ey ! nat ny"
  have rng0: "in_range h0 ?x ?y nx ny px py = Some ?ok"
    using in_range_eval[where h=h0 and px=px and ex=ex and nx=nx and py=py and ey=ey and ny=ny
        and x="?x" and y="?y"] ex ey by simp
  have rng: "in_range ?h ?x ?y nx ny px py = Some ?ok"
    using in_range_cong[of ?h px h0 py ?x ?y nx ny] hpx hpy rng0 by simp
  have gx: "GetBin ?h ?x nx px = GetBin h0 ?x nx px"
    by (rule GetBin_cong) (rule hpx)
  have gy: "GetBin ?h ?y ny py = GetBin h0 ?y ny py"
    by (rule GetBin_cong) (rule hpy)
  show ?thesis
  proof (cases ?ok)
    case False
    have "evt_bin h0 X Y nx ny px py i = None"
      using ldx0 ldy0 rng0 False by (simp add: evt_bin_def)
    moreover have "Hist2D t bd b X Y W n_evts hist nx ny px py ?h = Some ?h"
      using idx ldx ldy rng False by (simp add: Hist2D_def)
    ultimately show ?thesis by (simp add: add_evt_def)
  next
    case True
    obtain bx where bx: "GetBin h0 ?x nx px = Some bx" "0 \<le> bx" "bx < nx"
      using GetBin_correct[where h=h0 and p=px and e=ex and n=nx and x="?x"] ex True by auto
    obtain byy where byy: "GetBin h0 ?y ny py = Some byy" "0 \<le> byy" "byy < ny"
      using GetBin_correct[where h=h0 and p=py and e=ey and n=ny and x="?y"] ey True by auto
    let ?k = "byy + bx * ny"
    have kb: "0 \<le> ?k \<and> ?k < nx * ny"
      using flat_index_bounds[of bx nx byy ny] bx byy by simp
    have eb: "evt_bin h0 X Y nx ny px py i = Some ?k"
      using ldx0 ldy0 rng0 True bx byy by (simp add: evt_bin_def)
    have aa: "atomicAdd ?h hist ?k (ws ! nat i) = Some (h0(hist \<mapsto> hb[nat ?k := hb ! nat ?k + ws ! nat i]))"
      using kb hb by (simp add: atomicAdd_def)
    have "Hist2D t bd b X Y W n_evts hist nx ny px py ?h =
          atomicAdd ?h hist ?k (ws ! nat i)"
      using idx ldx ldy ldw rng True gx gy bx byy by (simp add: Hist2D_def)
    with aa eb show ?thesis by (simp add: add_evt_def)
  qed
qed

lemma length_add_evt [simp]:
  "length (add_evt h X Y ws nx ny px py hb i) = length hb"
  by (simp add: add_evt_def split: option.splits)

subsection \<open>A launch, worker by worker\<close>

lemma thread_idx_small:
  "t + bd * b < 2 ^ 31 \<Longrightarrow> thread_idx t bd b = int (t + bd * b)"
  by (simp add: thread_idx_def to_int32_def)

lemma product_upt_Suc:
  "List.product [0..<Suc g] ys = List.product [0..<g] ys @ map (Pair g) ys"
  by (induction g) (simp_all add: product_concat_map)

lemma map_index_product:
  "map (\<lambda>(b, t). t + bd * b) (List.product [0..<g] [0..<bd]) = [0..<bd * g]"
proof (induction g)
  case 0
  then show ?case by simp
next
  case (Suc g)
  have "map (\<lambda>(b, t). t + bd * b) (map (Pair g) [0..<bd]) = map (\<lambda>t. t + bd * g) [0..<bd]"
    by simp
  also have "\<dots> = [bd * g..<bd * g + bd]"
    by (simp add: map_add_upt add.commute)
  finally have last_block:
    "map (\<lambda>(b, t). t + bd * b) (map (Pair g) [0..<bd]) = [bd * g..<bd * g + bd]" .
  have "map (\<lambda>(b, t). t + bd * b) (List.product [0..<Suc g] [0..<bd])
      = map (\<lambda>(b, t). t + bd * b) (List.product [0..<g] [0..<bd])
        @ map (\<lambda>(b, t). t + bd * b) (map (Pair g) [0..<bd])"
    by (simp only: product_upt_Suc map_append)
  also have "\<dots> = [0..<bd * g] @ [bd * g..<bd * g + bd]"
    by (simp only: Suc last_block)
  also have "\<dots> = [0..<bd * g + bd]"
    by (metis le_add1 upt_add_eq_append zero_le)
  also have "\<dots> = [0..<bd * Suc g]"
    by (simp add: add.commute)
  finally show ?case .
qed

lemma run_workers_fold:
  assumes step: "\<And>b t hb. (b, t) \<in> set ws \<Longrightarrow> length hb = L \<Longrightarrow>
        k t bd b (h0(hist \<mapsto> hb)) = Some (h0(hist \<mapsto> f (idx (b, t)) hb))"
    and len: "\<And>i hb. length (f i hb) = length hb"
    and hb: "length hb = L"
  shows "run_workers k bd ws (h0(hist \<mapsto> hb)) =
         Some (h0(hist \<mapsto> foldl (\<lambda>a i. f i a) hb (map idx ws)))"
  using step hb
proof (induction ws arbitrary: hb)
  case Nil
  then show ?case by simp
next
  case (Cons w ws)
  obtain b t where w: "w = (b, t)" by (cases w)
  have s1: "k t bd b (h0(hist \<mapsto> hb)) = Some (h0(hist \<mapsto> f (idx (b, t)) hb))"
    by (rule Cons.prems(1)) (simp_all add: w Cons.prems(2))
  have "run_workers k bd ws (h0(hist \<mapsto> f (idx (b, t)) hb)) =
        Some (h0(hist \<mapsto> foldl (\<lambda>a i. f i a) (f (idx (b, t)) hb) (map idx ws)))"
  proof (rule Cons.IH)
    show "k t' bd b' (h0(hist \<mapsto> hb')) = Some (h0(hist \<mapsto> f (idx (b', t')) hb'))"
      if "(b', t') \<in> set ws" "length hb' = L" for b' t' hb'
      by (rule Cons.prems(1)) (use that in simp_all)
    show "length (f (idx (b, t)) hb) = L" by (simp add: len Cons.prems(2))
  qed
  then show ?case unfolding w by (simp only: run_workers.simps s1 option.case list.map foldl.simps)
qed

lemma foldl_skip:
  assumes "\<And>i a. i \<in> set is \<Longrightarrow> f a i = a"
  shows "foldl f a is = a"
  using assms by (induction "is" arbitrary: a) simp_all

lemma gdim_bounds:
  fixes n :: int
  assumes "1 \<le> n" "n \<le> 2 ^ 23"
  defines "g \<equiv> (n div 256 + (if n mod 256 > 0 then 1 else 0)) * 256"
  shows "0 < g" "n \<le> g" "g \<le> 2 ^ 23"
proof -
  define q r where "q = n div 256" and "r = n mod 256"
  have n': "n \<le> 8388608" using assms(2) by simp
  have d: "n = 256 * q + r" and r: "0 \<le> r" "r < 256" by (simp_all add: q_def r_def)
  have g': "g = (if r > 0 then 256 * q + 256 else 256 * q)"
    by (simp add: g_def q_def r_def algebra_simps)
  show "0 < g" using assms(1) d r unfolding g' by (cases "r > 0") simp_all
  show "n \<le> g" using d r unfolding g' by (cases "r > 0") simp_all
  have "g \<le> 8388608" using n' d r unfolding g' by (cases "r > 0") simp_all
  then show "g \<le> 2 ^ 23" by simp
qed

lemma launch_Hist2D_cover:
  assumes X: "h0 X = Some xs" and Y: "h0 Y = Some ys" and W: "h0 W = Some ws"
    and lens: "n_evts \<le> int (length xs)" "n_evts \<le> int (length ys)" "n_evts \<le> int (length ws)"
    and ex: "h0 px = Some ex" "int (length ex) = nx + 1" "sorted_wrt (<) ex" "1 \<le> nx"
    and ey: "h0 py = Some ey" "int (length ey) = ny + 1" "sorted_wrt (<) ey" "1 \<le> ny"
    and dis: "hist \<noteq> X" "hist \<noteq> Y" "hist \<noteq> W" "hist \<noteq> px" "hist \<noteq> py"
    and hb: "int (length hb) = nx * ny"
    and g: "0 < gdim" "0 < bd" "n_evts \<le> int bd * gdim" "int bd * gdim \<le> 2 ^ 31"
  shows "launch (\<lambda>t bd b. Hist2D t bd b X Y W n_evts hist nx ny px py) bd gdim (h0(hist \<mapsto> hb)) =
         Some (h0(hist \<mapsto> add_evts h0 X Y ws nx ny px py n_evts hb))"
proof -
  define G where "G = nat gdim"
  have gG: "gdim = int G" using g(1) by (simp add: G_def)
  have G: "0 < G" "nat n_evts \<le> bd * G" "bd * G \<le> 2 ^ 31"
  proof -
    show "0 < G" using g(1) by (simp add: G_def)
    have "n_evts \<le> int (bd * G)" using g(3) by (simp add: gG)
    then show "nat n_evts \<le> bd * G" by linarith
    have "int (bd * G) \<le> 2 ^ 31" using g(4) by (simp add: gG)
    then show "bd * G \<le> 2 ^ 31" by (metis of_nat_le_iff of_nat_numeral of_nat_power)
  qed
  define f where "f = (\<lambda>i a. if i < n_evts then add_evt h0 X Y ws nx ny px py a i else a)"
  define idx where "idx = (\<lambda>(b, t). int (t + bd * b))"
  let ?K = "\<lambda>t bd b. Hist2D t bd b X Y W n_evts hist nx ny px py"
  let ?ws = "List.product [0..<G] [0..<bd]"
  have step: "?K t bd b (h0(hist \<mapsto> a)) = Some (h0(hist \<mapsto> f (idx (b, t)) a))"
    if "(b, t) \<in> set ?ws" "length a = length hb" for b t a
  proof -
    from that have bt: "b < G" "t < bd" by auto
    have "bd * Suc b \<le> bd * G" using bt(1) by (intro mult_le_mono2) simp
    then have "bd * b + bd \<le> bd * G" by simp
    with bt have "t + bd * b < bd * G" by linarith
    with G(3) have small: "t + bd * b < 2 ^ 31" by simp
    have ti: "thread_idx t bd b = int (t + bd * b)" by (rule thread_idx_small[OF small])
    show ?thesis
    proof (cases "int (t + bd * b) < n_evts")
      case True
      have "?K t bd b (h0(hist \<mapsto> a)) =
            Some (h0(hist \<mapsto> add_evt h0 X Y ws nx ny px py a (int (t + bd * b))))"
        using ti True hb that(2)
        by (intro Hist2D_step[OF X Y W lens ex ey dis]) simp_all
      with True show ?thesis by (simp add: f_def idx_def)
    next
      case False
      then show ?thesis using ti by (simp add: Hist2D_skip f_def idx_def)
    qed
  qed
  have lenf: "length (f i a) = length a" for i a by (simp add: f_def)
  have run: "run_workers ?K bd ?ws (h0(hist \<mapsto> hb)) =
        Some (h0(hist \<mapsto> foldl (\<lambda>a i. f i a) hb (map idx ?ws)))"
    by (rule run_workers_fold[where L="length hb"]) (simp_all add: step lenf)
  have "map idx ?ws = map int (map (\<lambda>(b, t). t + bd * b) ?ws)"
    by (simp add: idx_def split_def)
  also have "\<dots> = map int [0..<bd * G]" by (simp only: map_index_product)
  also have "[0..<bd * G] = [0..<nat n_evts] @ [nat n_evts..<bd * G]"
    using G(2) by (metis le_add_diff_inverse upt_add_eq_append zero_le)
  finally have m: "map idx ?ws = map int [0..<nat n_evts] @ map int [nat n_evts..<bd * G]"
    by simp
  have tail: "foldl (\<lambda>a i. f i a) a (map int [nat n_evts..<bd * G]) = a" for a
    by (rule foldl_skip) (auto simp: f_def)
  have head: "foldl (\<lambda>a i. f i a) hb (map int [0..<nat n_evts]) =
              foldl (add_evt h0 X Y ws nx ny px py) hb (map int [0..<nat n_evts])"
    by (rule foldl_cong) (auto simp: f_def)
  have fold_eq: "foldl (\<lambda>a i. f i a) hb (map idx ?ws) = add_evts h0 X Y ws nx ny px py n_evts hb"
    unfolding m foldl_append tail head add_evts_def ..
  have "launch ?K bd gdim (h0(hist \<mapsto> hb)) = run_workers ?K bd ?ws (h0(hist \<mapsto> hb))"
    using g(1,2) by (simp add: launch_def G_def)
  also note run
  finally show ?thesis by (simp only: fold_eq)
qed

lemma launch_Hist2D:
  assumes X: "h0 X = Some xs" and Y: "h0 Y = Some ys" and W: "h0 W = Some ws"
    and lens: "n_evts \<le> int (length xs)" "n_evts \<le> int (length ys)" "n_evts \<le> int (length ws)"
    and ex: "h0 px = Some ex" "int (length ex) = nx + 1" "sorted_wrt (<) ex" "1 \<le> nx"
    and ey: "h0 py = Some ey" "int (length ey) = ny + 1" "sorted_wrt (<) ey" "1 \<le> ny"
    and dis: "hist \<noteq> X" "hist \<noteq> Y" "hist \<noteq> W" "hist \<noteq> px" "hist \<noteq> py"
    and hb: "int (length hb) = nx * ny"
    and n: "1 \<le> n_evts" "n_evts \<le> 2 ^ 23"
  shows "launch (\<lambda>t bd b. Hist2D t bd b X Y W n_evts hist nx ny px py) 256
           ((n_evts div 256 + (if n_evts mod 256 > 0 then 1 else 0)) * 256) (h0(hist \<mapsto> hb)) =
         Some (h0(hist \<mapsto> add_evts h0 X Y ws nx ny px py n_evts hb))"
proof -
  define g where "g = (n_evts div 256 + (if n_evts mod 256 > 0 then 1 else 0)) * 256"
  have gb: "0 < g" "n_evts \<le> g" "g \<le> 2 ^ 23"
    using gdim_bounds[OF n] by (simp_all add: g_def)
  have "launch (\<lambda>t bd b. Hist2D t bd b X Y W n_evts hist nx ny px py) 256 g (h0(hist \<mapsto> hb)) =
         Some (h0(hist \<mapsto> add_evts h0 X Y ws nx ny px py n_evts hb))"
    by (rule launch_Hist2D_cover[OF X Y W lens ex ey dis hb]) (use gb in simp_all)
  then show ?thesis unfolding g_def .
qed

subsection \<open>The class invariant and an accumulation pass\<close>

lemma GPUhist_init_inv:
  assumes "GPUhist_init dev ex ey = Some (self, dev')"
  shows "GPUhist_inv self dev' ex ey"
proof -
  let ?nx = "int (length ex) - 1" and ?ny = "int (length ey) - 1"
  from assms obtain z where z: "zeros_ravel ?nx ?ny = Some z"
    by (auto simp: GPUhist_init_def Let_def bind_eq_Some_conv)
  then have nn: "0 \<le> ?nx" "0 \<le> ?ny" and zdef: "z = replicate (nat (?nx * ?ny)) 0"
    by (auto simp: zeros_ravel_def split: if_splits)
  from assms z have pos: "length z \<noteq> 0"
    by (auto simp: GPUhist_init_def Let_def bind_eq_Some_conv mem_alloc_def split: if_splits)
  then have prod: "0 < ?nx * ?ny" using zdef by simp
  have one: "1 \<le> ?nx" "1 \<le> ?ny"
    using prod nn by (smt (verit) mult_eq_0_iff)+
  from assms z show ?thesis
    using one zdef
    by (auto simp: GPUhist_init_def Let_def bind_eq_Some_conv mem_alloc_def memcpy_htod_def
        GPUhist_inv_def split: if_splits)
qed

lemma clear_inv:
  assumes inv: "GPUhist_inv self dev ex ey"
  shows "clear self dev =
     Some (self\<lparr>hist2d := replicate (nat (n_bins_x self * n_bins_y self)) 0\<rparr>,
           dev\<lparr>mem := (mem dev)(d_hist2d self \<mapsto> replicate (nat (n_bins_x self * n_bins_y self)) 0)\<rparr>)"
proof -
  from inv obtain old where old: "mem dev (d_hist2d self) = Some old"
      "length old = nat (n_bins_x self * n_bins_y self)"
    by (auto simp: GPUhist_inv_def)
  from inv have "1 \<le> n_bins_x self" "1 \<le> n_bins_y self"
    unfolding GPUhist_inv_def by blast+
  then have z: "zeros_ravel (n_bins_x self) (n_bins_y self) =
      Some (replicate (nat (n_bins_x self * n_bins_y self)) 0)"
    by (simp add: zeros_ravel_def)
  show ?thesis using old z by (simp add: clear_def memcpy_htod_def)
qed

lemma length_add_evts [simp]:
  "length (add_evts h X Y ws nx ny px py n hb) = length hb"
proof -
  have "length (foldl (add_evt h X Y ws nx ny px py) hb is) = length hb" for "is"
    by (induction "is" arbitrary: hb) simp_all
  then show ?thesis by (simp add: add_evts_def)
qed

lemma get_hist_eval:
  assumes inv: "GPUhist_inv self dev ex ey"
    and srt: "sorted_wrt (<) ex" "sorted_wrt (<) ey"
    and X: "mem dev d_x = Some xs" and Y: "mem dev d_y = Some ys" and W: "mem dev d_w = Some ws"
    and lens: "n_evts \<le> int (length xs)" "n_evts \<le> int (length ys)" "n_evts \<le> int (length ws)"
    and dis: "d_hist2d self \<noteq> d_x" "d_hist2d self \<noteq> d_y" "d_hist2d self \<noteq> d_w"
    and n: "1 \<le> n_evts" "n_evts \<le> 2 ^ 23"
  shows "get_hist self dev n_evts d_x d_y d_w =
     Some (map (\<lambda>i. take (nat (n_bins_y self))
                  (drop (i * nat (n_bins_y self)) (hist_of self (mem dev) n_evts d_x d_y ws)))
             [0..<nat (n_bins_x self)],
           self\<lparr>hist2d := hist_of self (mem dev) n_evts d_x d_y ws\<rparr>,
           dev\<lparr>mem := (mem dev)(d_hist2d self \<mapsto> hist_of self (mem dev) n_evts d_x d_y ws)\<rparr>)"
proof -
  let ?nx = "n_bins_x self" and ?ny = "n_bins_y self"
  let ?z = "replicate (nat (?nx * ?ny)) (0::fType)"
  let ?H = "hist_of self (mem dev) n_evts d_x d_y ws"
  let ?self1 = "self\<lparr>hist2d := ?z\<rparr>"
  let ?dev1 = "dev\<lparr>mem := (mem dev)(d_hist2d self \<mapsto> ?z)\<rparr>"
  from inv have i: "int (length ex) = ?nx + 1" "int (length ey) = ?ny + 1" "1 \<le> ?nx" "1 \<le> ?ny"
      "mem dev (d_bin_edges_x self) = Some ex" "mem dev (d_bin_edges_y self) = Some ey"
      "d_hist2d self \<noteq> d_bin_edges_x self" "d_hist2d self \<noteq> d_bin_edges_y self"
    by (auto simp: GPUhist_inv_def)
  have pos: "0 \<le> ?nx * ?ny" using i(3,4) by simp
  have cl: "clear self dev = Some (?self1, ?dev1)" by (rule clear_inv[OF inv])
  have la: "launch (\<lambda>t bd b. Hist2D t bd b d_x d_y d_w n_evts (d_hist2d self) ?nx ?ny
                (d_bin_edges_x self) (d_bin_edges_y self)) 256
              ((n_evts div 256 + (if n_evts mod 256 > 0 then 1 else 0)) * 256)
              ((mem dev)(d_hist2d self \<mapsto> ?z)) =
            Some ((mem dev)(d_hist2d self \<mapsto> ?H))"
    unfolding hist_of_def
    by (rule launch_Hist2D[OF X Y W lens i(5) i(1) srt(1) i(3) i(6) i(2) srt(2) i(4)
          dis i(7) i(8) _ n]) (use pos in simp)
  have lenH: "length ?H = nat (?nx * ?ny)"
    by (simp add: hist_of_def)
  have dt: "memcpy_dtoh (?dev1\<lparr>mem := (mem dev)(d_hist2d self \<mapsto> ?H)\<rparr>) (length (hist2d ?self1))
              (d_hist2d ?self1) = Some ?H"
    using lenH by (simp add: memcpy_dtoh_def)
  have rs: "reshape2 ?nx ?ny ?H =
      Some (map (\<lambda>i. take (nat ?ny) (drop (i * nat ?ny) ?H)) [0..<nat ?nx])"
    using lenH i(3,4) pos by (simp add: reshape2_def)
  show ?thesis
    using la dt rs by (simp add: get_hist_def Let_def cl)
qed

subsection \<open>Sums and cells of the accumulated array\<close>

lemma concat_rows:
  "concat (map (\<lambda>i. take m (drop (i * m) (a::'a list))) [0..<n]) = take (n * m) a"
proof (induction n)
  case 0
  then show ?case by simp
next
  case (Suc n)
  have "take (n * m) a @ take m (drop (n * m) a) = take (n * m + m) a"
    by (simp add: take_add)
  with Suc show ?case by (simp add: add.commute)
qed

lemma evt_bin_in_range:
  assumes X: "h X = Some xs" and Y: "h Y = Some ys"
    and lens: "int i < int (length xs)" "int i < int (length ys)"
    and ex: "h px = Some ex" "int (length ex) = nx + 1" "sorted_wrt (<) ex" "1 \<le> nx"
    and ey: "h py = Some ey" "int (length ey) = ny + 1" "sorted_wrt (<) ey" "1 \<le> ny"
  shows "(evt_bin h X Y nx ny px py (int i) = None) = (\<not> evt_in_range ex ey xs ys i)"
proof -
  let ?x = "xs ! i" and ?y = "ys ! i"
  have ldx: "ld h X (int i) = Some ?x" using X lens by (simp add: ld_def)
  have ldy: "ld h Y (int i) = Some ?y" using Y lens by (simp add: ld_def)
  have nn: "nat nx = length ex - 1" "nat ny = length ey - 1" using ex(2) ey(2) by simp_all
  have rng: "in_range h ?x ?y nx ny px py = Some (evt_in_range ex ey xs ys i)"
    using in_range_eval[where h=h and px=px and ex=ex and nx=nx and py=py and ey=ey and ny=ny
        and x="?x" and y="?y"] ex ey by (simp add: evt_in_range_def nn)
  show ?thesis
  proof (cases "evt_in_range ex ey xs ys i")
    case False
    then show ?thesis using ldx ldy rng by (simp add: evt_bin_def)
  next
    case True
    then have r: "ex ! 0 \<le> ?x" "?x \<le> ex ! nat nx" "ey ! 0 \<le> ?y" "?y \<le> ey ! nat ny"
      by (simp_all add: evt_in_range_def nn)
    obtain bx where bx: "GetBin h ?x nx px = Some bx"
      using GetBin_correct[where h=h and p=px and e=ex and n=nx and x="?x"] ex r by auto
    obtain byy where byy: "GetBin h ?y ny py = Some byy"
      using GetBin_correct[where h=h and p=py and e=ey and n=ny and x="?y"] ey r by auto
    show ?thesis using True ldx ldy rng bx byy by (simp add: evt_bin_def)
  qed
qed

lemma sum_list_add_at:
  "k < length (a::real list) \<Longrightarrow> sum_list (a[k := a ! k + w]) = sum_list a + w"
proof (induction a arbitrary: k)
  case Nil
  then show ?case by simp
next
  case (Cons x a)
  then show ?case by (cases k) simp_all
qed

lemma sum_foldl_add_evt:
  assumes "\<And>i k. i \<in> set is \<Longrightarrow> evt_bin h X Y nx ny px py i = Some k \<Longrightarrow> 0 \<le> k \<and> nat k < length hb"
  shows "sum_list (foldl (add_evt h X Y ws nx ny px py) hb is) =
         sum_list hb + (\<Sum>i\<leftarrow>is. case evt_bin h X Y nx ny px py i of None \<Rightarrow> 0 | Some k \<Rightarrow> ws ! nat i)"
  using assms
proof (induction "is" arbitrary: hb)
  case Nil
  then show ?case by simp
next
  case (Cons i "is")
  let ?hb' = "add_evt h X Y ws nx ny px py hb i"
  have s: "sum_list ?hb' = sum_list hb + (case evt_bin h X Y nx ny px py i of None \<Rightarrow> 0 | Some k \<Rightarrow> ws ! nat i)"
  proof (cases "evt_bin h X Y nx ny px py i")
    case None
    then show ?thesis by (simp add: add_evt_def)
  next
    case (Some k)
    then have "nat k < length hb" using Cons.prems[of i k] by simp
    then show ?thesis using Some by (simp add: add_evt_def sum_list_add_at)
  qed
  have "sum_list (foldl (add_evt h X Y ws nx ny px py) ?hb' is) =
        sum_list ?hb' + (\<Sum>i\<leftarrow>is. case evt_bin h X Y nx ny px py i of None \<Rightarrow> 0 | Some k \<Rightarrow> ws ! nat i)"
  proof (rule Cons.IH)
    fix i' k assume "i' \<in> set is" "evt_bin h X Y nx ny px py i' = Some k"
    then show "0 \<le> k \<and> nat k < length ?hb'" using Cons.prems(1)[of i' k] by simp
  qed
  with s show ?case by simp
qed

lemma nth_foldl_add_evt:
  assumes "\<And>i k. i \<in> set is \<Longrightarrow> evt_bin h X Y nx ny px py i = Some k \<Longrightarrow> 0 \<le> k \<and> nat k < length hb"
    and "j < length hb"
  shows "foldl (add_evt h X Y ws nx ny px py) hb is ! j =
         hb ! j + (\<Sum>i\<leftarrow>is. if evt_bin h X Y nx ny px py i = Some (int j) then ws ! nat i else 0)"
  using assms
proof (induction "is" arbitrary: hb)
  case Nil
  then show ?case by simp
next
  case (Cons i "is")
  let ?hb' = "add_evt h X Y ws nx ny px py hb i"
  have s: "?hb' ! j = hb ! j + (if evt_bin h X Y nx ny px py i = Some (int j) then ws ! nat i else 0)"
  proof (cases "evt_bin h X Y nx ny px py i")
    case None
    then show ?thesis by (simp add: add_evt_def)
  next
    case (Some k)
    then have k: "0 \<le> k" "nat k < length hb" using Cons.prems(1)[of i k] by simp_all
    show ?thesis
    proof (cases "k = int j")
      case True
      then show ?thesis using Some k Cons.prems(2) by (simp add: add_evt_def)
    next
      case False
      then have "nat k \<noteq> j" using k by auto
      then show ?thesis using Some False by (simp add: add_evt_def)
    qed
  qed
  have "foldl (add_evt h X Y ws nx ny px py) ?hb' is ! j =
        ?hb' ! j + (\<Sum>i\<leftarrow>is. if evt_bin h X Y nx ny px py i = Some (int j) then ws ! nat i else 0)"
  proof (rule Cons.IH)
    fix i' k assume "i' \<in> set is" "evt_bin h X Y nx ny px py i' = Some k"
    then show "0 \<le> k \<and> nat k < length ?hb'" using Cons.prems(1)[of i' k] by simp
  next
    show "j < length ?hb'" using Cons.prems(2) by simp
  qed
  with s show ?case by simp
qed

lemma add_evts_zero_facts:
  assumes ex: "h px = Some ex" "int (length ex) = nx + 1" "sorted_wrt (<) ex" "1 \<le> nx"
    and ey: "h py = Some ey" "int (length ey) = ny + 1" "sorted_wrt (<) ey" "1 \<le> ny"
    and X: "h d_x = Some xs" and Y: "h d_y = Some ys"
    and lens: "n_evts \<le> int (length xs)" "n_evts \<le> int (length ys)"
  shows "sum_list (add_evts h d_x d_y ws nx ny px py n_evts (replicate (nat (nx * ny)) 0)) =
           (\<Sum>i\<leftarrow>[0..<nat n_evts]. if evt_in_range ex ey xs ys i then ws ! i else 0)"
    and "j < nat (nx * ny) \<Longrightarrow>
         add_evts h d_x d_y ws nx ny px py n_evts (replicate (nat (nx * ny)) 0) ! j =
           (\<Sum>i\<leftarrow>[0..<nat n_evts].
              if evt_in_range ex ey xs ys i \<and>
                 evt_bin h d_x d_y nx ny px py (int i) = Some (int j)
              then ws ! i else 0)"
proof -
  let ?nx = nx and ?ny = ny
  let ?px = px and ?py = py
  let ?z = "replicate (nat (?nx * ?ny)) (0::fType)"
  let ?eb = "evt_bin h d_x d_y ?nx ?ny ?px ?py"
  note srt = ex(3) ey(3)
  note i = ex(2) ey(2) ex(4) ey(4) ex(1) ey(1)
  have bnd: "0 \<le> k \<and> nat k < length ?z" if "?eb i' = Some k" for i' k
    using evt_bin_bounds[where h=h and px="?px" and ex=ex and nx="?nx" and py="?py"
        and ey=ey and ny="?ny" and X=d_x and Y=d_y and i=i' and k=k] i srt that by simp
  have none: "(?eb (int i') = None) = (\<not> evt_in_range ex ey xs ys i')" if "i' < nat n_evts" for i'
    using that lens
    by (intro evt_bin_in_range[OF X Y _ _ i(5) i(1) srt(1) i(3) i(6) i(2) srt(2) i(4)]) simp_all
  have "sum_list (add_evts h d_x d_y ws nx ny px py n_evts (replicate (nat (nx * ny)) 0)) =
        (\<Sum>i\<leftarrow>map int [0..<nat n_evts]. case ?eb i of None \<Rightarrow> 0 | Some k \<Rightarrow> ws ! nat i)"
    unfolding add_evts_def
    by (subst sum_foldl_add_evt) (use bnd in \<open>simp_all add: sum_list_replicate\<close>)
  also have "\<dots> = (\<Sum>i\<leftarrow>[0..<nat n_evts]. case ?eb (int i) of None \<Rightarrow> 0 | Some k \<Rightarrow> ws ! i)"
    by (simp add: comp_def cong: option.case_cong)
  also have "\<dots> = (\<Sum>i\<leftarrow>[0..<nat n_evts]. if evt_in_range ex ey xs ys i then ws ! i else 0)"
  proof (rule arg_cong[where f=sum_list], rule map_cong[OF refl])
    fix i' assume "i' \<in> set [0..<nat n_evts]"
    then have "i' < nat n_evts" by simp
    from none[OF this]
    show "(case ?eb (int i') of None \<Rightarrow> 0 | Some k \<Rightarrow> ws ! i') =
          (if evt_in_range ex ey xs ys i' then ws ! i' else 0)"
      by (cases "?eb (int i')") auto
  qed
  finally show "sum_list (add_evts h d_x d_y ws nx ny px py n_evts (replicate (nat (nx * ny)) 0)) =
           (\<Sum>i\<leftarrow>[0..<nat n_evts]. if evt_in_range ex ey xs ys i then ws ! i else 0)" .
  assume j: "j < nat (?nx * ?ny)"
  have "add_evts h d_x d_y ws nx ny px py n_evts (replicate (nat (nx * ny)) 0) ! j =
        ?z ! j + (\<Sum>i\<leftarrow>map int [0..<nat n_evts]. if ?eb i = Some (int j) then ws ! nat i else 0)"
    unfolding add_evts_def
    by (rule nth_foldl_add_evt) (use bnd j in simp_all)
  also have "\<dots> = (\<Sum>i\<leftarrow>[0..<nat n_evts]. if ?eb (int i) = Some (int j) then ws ! i else 0)"
    using j by (simp add: comp_def cong: if_cong)
  also have "\<dots> = (\<Sum>i\<leftarrow>[0..<nat n_evts].
              if evt_in_range ex ey xs ys i \<and> ?eb (int i) = Some (int j) then ws ! i else 0)"
  proof (rule arg_cong[where f=sum_list], rule map_cong[OF refl])
    fix i' assume "i' \<in> set [0..<nat n_evts]"
    then have "i' < nat n_evts" by simp
    from none[OF this]
    show "(if ?eb (int i') = Some (int j) then ws ! i' else 0) =
          (if evt_in_range ex ey xs ys i' \<and> ?eb (int i') = Some (int j) then ws ! i' else 0)"
      by (cases "?eb (int i')") auto
  qed
  finally show "add_evts h d_x d_y ws nx ny px py n_evts (replicate (nat (nx * ny)) 0) ! j =
           (\<Sum>i\<leftarrow>[0..<nat n_evts].
              if evt_in_range ex ey xs ys i \<and> ?eb (int i) = Some (int j) then ws ! i else 0)" .
qed

subsection \<open>The example, evaluated\<close>

lemma ex_init:
  "GPUhist_init \<lparr>mem = [0 \<mapsto> [1/2, 2, -1/2], 1 \<mapsto> [3/2, 2, 1], 2 \<mapsto> [1, 2, 4]], next_ptr = 3\<rparr>
     [0, 1, 2] [0, 1, 2] = Some (ex_self, ex_dev)"
  by (simp add: GPUhist_init_def zeros_ravel_def mem_alloc_def memcpy_htod_def Let_def
      ex_self_def ex_dev_def ex_heap_def eval_nat_numeral fun_upd_twist)

lemma ex_inv: "GPUhist_inv ex_self ex_dev [0, 1, 2] [0, 1, 2]"
  by (rule GPUhist_init_inv[OF ex_init])

lemma ex_evt_bins:
  "evt_bin ex_heap 0 1 2 2 4 5 0 = Some 1"
  "evt_bin ex_heap 0 1 2 2 4 5 1 = Some 3"
  "evt_bin ex_heap 0 1 2 2 4 5 2 = None"
  by (simp_all add: evt_bin_def in_range_def and_then_def GetBin_def GetBin_loop.simps ld_def
      c_div_def ex_heap_def)

lemma ex_hist_of: "hist_of ex_self ex_heap 3 0 1 [1, 2, 4] = [0, 1, 0, 2]"
  by code_simp

lemma ex_get_hist:
  "get_hist ex_self ex_dev 3 0 1 2 =
     Some ([[0, 1], [0, 2]], ex_self\<lparr>hist2d := [0, 1, 0, 2]\<rparr>,
           ex_dev\<lparr>mem := ex_heap(3 \<mapsto> [0, 1, 0, 2])\<rparr>)"
proof -
  have m: "mem ex_dev = ex_heap" by (simp add: ex_dev_def)
  have "get_hist ex_self ex_dev 3 0 1 2 =
     Some (map (\<lambda>i. take (nat (n_bins_y ex_self))
                  (drop (i * nat (n_bins_y ex_self)) (hist_of ex_self (mem ex_dev) 3 0 1 [1, 2, 4])))
             [0..<nat (n_bins_x ex_self)],
           ex_self\<lparr>hist2d := hist_of ex_self (mem ex_dev) 3 0 1 [1, 2, 4]\<rparr>,
           ex_dev\<lparr>mem := (mem ex_dev)(d_hist2d ex_self \<mapsto> hist_of ex_self (mem ex_dev) 3 0 1 [1, 2, 4])\<rparr>)"
    by (rule get_hist_eval[OF ex_inv, where xs="[1/2, 2, -1/2]" and ys="[3/2, 2, 1]"])
       (simp_all add: m ex_heap_def ex_self_def)
  moreover have "map (\<lambda>i. take (nat (n_bins_y ex_self))
                  (drop (i * nat (n_bins_y ex_self)) [0, 1, 0, 2 :: fType]))
             [0..<nat (n_bins_x ex_self)] = [[0, 1], [0, 2]]"
    by code_simp
  moreover have "d_hist2d ex_self = 3" by (simp add: ex_self_def)
  ultimately show ?thesis by (simp only: m ex_hist_of)
qed

subsection \<open>The boundary law\<close>

text \<open>
  Claim C2 (boundary law). For strictly increasing edges \<open>e\<close> of length \<open>n_bins + 1\<close>
  (with at least one bin), \<^verbatim>\<open>GetBin\<close> maps the last edge \<open>e[n_bins]\<close> to bin
  \<open>n_bins - 1\<close> and every other edge \<open>e[k]\<close>, \<open>k < n_bins\<close>, to bin \<open>k\<close>: bins are closed
  below and open above, except the last one, which is closed on both ends.
\<close>

theorem GetBin_boundary_law:
  assumes hp: "h p = Some e" and len: "int (length e) = n + 1" and srt: "sorted_wrt (<) e"
    and n1: "1 \<le> n"
  shows "GetBin h (e ! nat n) n p = Some (n - 1) \<and>
         (\<forall>k. 0 \<le> k \<and> k < n \<longrightarrow> GetBin h (e ! nat k) n p = Some k)"
proof (intro conjI allI impI)
  have "e ! 0 \<le> e ! nat n" using edges_mono[OF srt, of 0 n] len n1 by simp
  with GetBin_correct[where h=h and p=p and e=e and n=n and x="e ! nat n"] hp len srt n1
  obtain b where b: "GetBin h (e ! nat n) n p = Some b" "0 \<le> b" "b < n" "e ! nat b \<le> e ! nat n"
      "e ! nat n < e ! nat (b + 1) \<or> (b = n - 1 \<and> e ! nat n = e ! nat n)" by auto
  have "e ! nat (b + 1) \<le> e ! nat n" using edges_mono[OF srt, of "b + 1" n] b len by simp
  with b(5) have "b = n - 1" by auto
  with b(1) show "GetBin h (e ! nat n) n p = Some (n - 1)" by simp
next
  fix k assume k: "0 \<le> k \<and> k < n"
  have lo: "e ! 0 \<le> e ! nat k" using edges_mono[OF srt, of 0 k] len k by simp
  have up: "e ! nat k \<le> e ! nat n" using edges_mono[OF srt, of k n] len k by simp
  from GetBin_correct[where h=h and p=p and e=e and n=n and x="e ! nat k"] hp len srt n1 lo up
  obtain b where b: "GetBin h (e ! nat k) n p = Some b" "0 \<le> b" "b < n" "e ! nat b \<le> e ! nat k"
      "e ! nat k < e ! nat (b + 1) \<or> (b = n - 1 \<and> e ! nat k = e ! nat n)" by auto
  have "e ! nat k < e ! nat (k + 1)" using edges_strict[OF srt, of k "k + 1"] len k by simp
  then have "b = k"
    using bin_unique[OF len srt b(2,3,4,5), of k] k by simp
  with b(1) show "GetBin h (e ! nat k) n p = Some k" by simp
qed

theorem GetBin_boundary_law_witness:
  "GetBin [0 \<mapsto> [0, 1, 2, 3]] 3 3 0 = Some 2 \<and>
   GetBin [0 \<mapsto> [0, 1, 2, 3]] 0 3 0 = Some 0 \<and>
   GetBin [0 \<mapsto> [0, 1, 2, 3]] 1 3 0 = Some 1 \<and>
   GetBin [0 \<mapsto> [0, 1, 2, 3]] 2 3 0 = Some 2"
proof -
  let ?e = "[0, 1, 2, 3] :: fType list"
  let ?h = "[0 \<mapsto> ?e] :: heap"
  have law: "GetBin ?h (?e ! nat 3) 3 0 = Some (3 - 1) \<and>
             (\<forall>k. 0 \<le> k \<and> k < 3 \<longrightarrow> GetBin ?h (?e ! nat k) 3 0 = Some k)"
    by (rule GetBin_boundary_law) simp_all
  have k0: "GetBin ?h (?e ! nat 0) 3 0 = Some 0"
    using law[THEN conjunct2, rule_format, of 0] by simp
  have k1: "GetBin ?h (?e ! nat 1) 3 0 = Some 1"
    using law[THEN conjunct2, rule_format, of 1] by simp
  have k2: "GetBin ?h (?e ! nat 2) 3 0 = Some 2"
    using law[THEN conjunct2, rule_format, of 2] by simp
  from law k0 k1 k2 show ?thesis by simp
qed

subsection \<open>Conservation of weight\<close>

text \<open>
  Claim C3 (total mass). A launch of \<^verbatim>\<open>Hist2D\<close> whose workers cover the events, on a zeroed
  histogram, ends without an error; the sum over all bins of the histogram it leaves
  equals the sum of the weights of exactly the events that are in range in every
  dimension, and every bin holds only weights of in-range events: an event out of range
  in any dimension adds nothing to any bin.
\<close>

theorem Hist2D_total_mass:
  assumes X: "h0 X = Some xs" and Y: "h0 Y = Some ys" and W: "h0 W = Some ws"
    and lens: "n_evts \<le> int (length xs)" "n_evts \<le> int (length ys)" "n_evts \<le> int (length ws)"
    and ex: "h0 px = Some ex" "int (length ex) = nx + 1" "sorted_wrt (<) ex" "1 \<le> nx"
    and ey: "h0 py = Some ey" "int (length ey) = ny + 1" "sorted_wrt (<) ey" "1 \<le> ny"
    and dis: "hist \<noteq> X" "hist \<noteq> Y" "hist \<noteq> W" "hist \<noteq> px" "hist \<noteq> py"
    and zero: "h0 hist = Some (replicate (nat (nx * ny)) 0)"
    and g: "0 < gdim" "0 < bd" "n_evts \<le> int bd * gdim" "int bd * gdim \<le> 2 ^ 31"
  shows "\<exists>H. launch (\<lambda>t bd b. Hist2D t bd b X Y W n_evts hist nx ny px py) bd gdim h0
               = Some (h0(hist \<mapsto> H)) \<and>
             length H = nat (nx * ny) \<and>
             sum_list H = (\<Sum>i\<leftarrow>[0..<nat n_evts]. if evt_in_range ex ey xs ys i then ws ! i else 0) \<and>
             (\<forall>j. j < nat (nx * ny) \<longrightarrow>
                H ! j = (\<Sum>i\<leftarrow>[0..<nat n_evts].
                           if evt_in_range ex ey xs ys i \<and>
                              evt_bin h0 X Y nx ny px py (int i) = Some (int j)
                           then ws ! i else 0))"
proof -
  let ?z = "replicate (nat (nx * ny)) (0::fType)"
  let ?H = "add_evts h0 X Y ws nx ny px py n_evts ?z"
  have h0: "h0(hist \<mapsto> ?z) = h0" using zero by (simp add: fun_upd_idem)
  have "int (length ?z) = nx * ny" using ex(4) ey(4) by simp
  from launch_Hist2D_cover[OF X Y W lens ex ey dis this g]
  have la: "launch (\<lambda>t bd b. Hist2D t bd b X Y W n_evts hist nx ny px py) bd gdim h0
            = Some (h0(hist \<mapsto> ?H))"
    by (simp only: h0)
  have s: "sum_list ?H = (\<Sum>i\<leftarrow>[0..<nat n_evts]. if evt_in_range ex ey xs ys i then ws ! i else 0)"
    by (rule add_evts_zero_facts(1)[OF ex ey X Y lens(1,2)])
  have c: "?H ! j = (\<Sum>i\<leftarrow>[0..<nat n_evts].
                           if evt_in_range ex ey xs ys i \<and>
                              evt_bin h0 X Y nx ny px py (int i) = Some (int j)
                           then ws ! i else 0)" if "j < nat (nx * ny)" for j
    by (rule add_evts_zero_facts(2)[OF ex ey X Y lens(1,2) that])
  show ?thesis
    by (intro exI[of _ ?H] conjI allI impI la s c) simp_all
qed

theorem Hist2D_total_mass_witness:
  "\<exists>H. launch (\<lambda>t bd b. Hist2D t bd b 0 1 2 3 3 2 2 4 5) 2 2 ex_heap = Some (ex_heap(3 \<mapsto> H)) \<and>
       length H = 4 \<and> sum_list H = 3"
proof -
  have "\<exists>H. launch (\<lambda>t bd b. Hist2D t bd b 0 1 2 3 3 2 2 4 5) 2 2 ex_heap
               = Some (ex_heap(3 \<mapsto> H)) \<and>
             length H = nat (2 * 2) \<and>
             sum_list H = (\<Sum>i\<leftarrow>[0..<nat 3].
                if evt_in_range [0, 1, 2] [0, 1, 2] [1/2, 2, -1/2] [3/2, 2, 1] i
                then [1, 2, 4] ! i else 0) \<and>
             (\<forall>j. j < nat (2 * 2) \<longrightarrow>
                H ! j = (\<Sum>i\<leftarrow>[0..<nat 3].
                           if evt_in_range [0, 1, 2] [0, 1, 2] [1/2, 2, -1/2] [3/2, 2, 1] i \<and>
                              evt_bin ex_heap 0 1 2 2 4 5 (int i) = Some (int j)
                           then [1, 2, 4] ! i else 0))"
    by (rule Hist2D_total_mass) (simp_all add: ex_heap_def eval_nat_numeral)
  then obtain H where H: "launch (\<lambda>t bd b. Hist2D t bd b 0 1 2 3 3 2 2 4 5) 2 2 ex_heap
               = Some (ex_heap(3 \<mapsto> H))" "length H = nat (2 * 2)"
      "sum_list H = (\<Sum>i\<leftarrow>[0..<nat 3].
                if evt_in_range [0, 1, 2] [0, 1, 2] [1/2, 2, -1/2] [3/2, 2, 1] i
                then [1, 2, 4] ! i else 0)"
    by blast
  have "(\<Sum>i\<leftarrow>[0..<nat 3].
                if evt_in_range [0, 1, 2] [0, 1, 2] [1/2, 2, -1/2] [3/2, 2, 1] i
                then [1, 2, 4] ! i else 0) = (3::real)"
    by (simp add: evt_in_range_def upt_rec_numeral eval_nat_numeral)
  with H show ?thesis by auto
qed

subsection \<open>Totality of the search, exclusion of out-of-range events\<close>

text \<open>
  \<^verbatim>\<open>GetBin\<close> alone has no out-of-range value: called below the first edge it returns
  bin 0, called above the last edge it returns the last bin. The out-of-range outcome
  is the range test of \<^verbatim>\<open>Hist2D\<close>, which \<^verbatim>\<open>GetBin\<close> is called behind.
\<close>

lemma GetBin_outside_is_a_bin:
  "GetBin ex_heap (-1/2) 2 4 = Some 0 \<and> GetBin ex_heap 3 2 4 = Some 1"
  by (simp add: GetBin_def GetBin_loop.simps ld_def c_div_def ex_heap_def)

text \<open>
  Claim C4 (safety of locate). For strictly increasing edges of length \<open>n_bins + 1\<close> with
  \<open>n_bins \<ge> 1\<close> and \<open>e[0] \<le> x \<le> e[n_bins]\<close>, the binary search ends and returns a bin
  in \<open>[0, n_bins)\<close>, the one that holds \<open>x\<close>. For a coordinate outside the edges of its
  dimension the range test of the kernel is false and the worker leaves device memory
  as it is: the event is excluded, no bin index is used.
\<close>

theorem locate_total_or_excluded:
  assumes ex: "h px = Some ex" "int (length ex) = nx + 1" "sorted_wrt (<) ex" "1 \<le> nx"
    and ey: "h py = Some ey" "int (length ey) = ny + 1" "sorted_wrt (<) ey" "1 \<le> ny"
  shows "(ex ! 0 \<le> x \<and> x \<le> ex ! nat nx \<longrightarrow>
            (\<exists>b. GetBin h x nx px = Some b \<and> 0 \<le> b \<and> b < nx \<and> ex ! nat b \<le> x \<and>
                 (x < ex ! nat (b + 1) \<or> (b = nx - 1 \<and> x = ex ! nat nx)))) \<and>
         (x < ex ! 0 \<or> ex ! nat nx < x \<or> y < ey ! 0 \<or> ey ! nat ny < y \<longrightarrow>
            in_range h x y nx ny px py = Some False \<and>
            (\<forall>t bd b X Y W n_evts hist.
               ld h X (thread_idx t bd b) = Some x \<and> ld h Y (thread_idx t bd b) = Some y \<longrightarrow>
               Hist2D t bd b X Y W n_evts hist nx ny px py h = Some h))"
proof (intro conjI impI)
  assume "ex ! 0 \<le> x \<and> x \<le> ex ! nat nx"
  then show "\<exists>b. GetBin h x nx px = Some b \<and> 0 \<le> b \<and> b < nx \<and> ex ! nat b \<le> x \<and>
                 (x < ex ! nat (b + 1) \<or> (b = nx - 1 \<and> x = ex ! nat nx))"
    using GetBin_correct[where h=h and p=px and e=ex and n=nx and x=x] ex by simp
next
  assume out: "x < ex ! 0 \<or> ex ! nat nx < x \<or> y < ey ! 0 \<or> ey ! nat ny < y"
  have "in_range h x y nx ny px py =
        Some (ex ! 0 \<le> x \<and> x \<le> ex ! nat nx \<and> ey ! 0 \<le> y \<and> y \<le> ey ! nat ny)"
    using in_range_eval[where h=h and px=px and ex=ex and nx=nx and py=py and ey=ey and ny=ny
        and x=x and y=y] ex ey by simp
  with out show no: "in_range h x y nx ny px py = Some False" by auto
  show "\<forall>t bd b X Y W n_evts hist.
               ld h X (thread_idx t bd b) = Some x \<and> ld h Y (thread_idx t bd b) = Some y \<longrightarrow>
               Hist2D t bd b X Y W n_evts hist nx ny px py h = Some h"
    using no by (auto simp: Hist2D_def Let_def)
qed

theorem locate_total_or_excluded_witness:
  "(\<exists>b. GetBin ex_heap (1/2) 2 4 = Some b \<and> 0 \<le> b \<and> b < 2) \<and>
   in_range ex_heap (-1/2) 1 2 2 4 5 = Some False \<and>
   Hist2D 2 4 0 0 1 2 3 3 2 2 4 5 ex_heap = Some ex_heap"
proof -
  have e: "ex_heap 4 = Some [0, 1, 2]" "ex_heap 5 = Some [0, 1, 2]"
    by (simp_all add: ex_heap_def)
  have inside: "\<exists>b. GetBin ex_heap (1/2) 2 4 = Some b \<and> 0 \<le> b \<and> b < 2"
    using locate_total_or_excluded[where h=ex_heap and px=4 and ex="[0, 1, 2]" and nx=2
        and py=5 and ey="[0, 1, 2]" and ny=2 and x="1/2" and y=1] e
    by auto
  have outside: "in_range ex_heap (-1/2) 1 2 2 4 5 = Some False \<and>
            (\<forall>t bd b X Y W n_evts hist.
               ld ex_heap X (thread_idx t bd b) = Some (-1/2) \<and>
               ld ex_heap Y (thread_idx t bd b) = Some 1 \<longrightarrow>
               Hist2D t bd b X Y W n_evts hist 2 2 4 5 ex_heap = Some ex_heap)"
    using locate_total_or_excluded[where h=ex_heap and px=4 and ex="[0, 1, 2]" and nx=2
        and py=5 and ey="[0, 1, 2]" and ny=2 and x="-1/2" and y=1] e
    by simp
  have idx: "thread_idx 2 4 0 = 2" by (simp add: thread_idx_def to_int32_def)
  have "ld ex_heap 0 (thread_idx 2 4 0) = Some (-1/2)" "ld ex_heap 1 (thread_idx 2 4 0) = Some 1"
    by (simp_all add: idx ld_def ex_heap_def)
  with outside have "Hist2D 2 4 0 0 1 2 3 3 2 2 4 5 ex_heap = Some ex_heap" by blast
  with inside outside show ?thesis by blast
qed

subsection \<open>What a pass leaves untouched\<close>

lemma atomicAdd_frame:
  "atomicAdd h p i v = Some h' \<Longrightarrow> q \<noteq> p \<Longrightarrow> h' q = h q"
  by (auto simp: atomicAdd_def split: option.splits if_splits)

lemma Hist2D_frame:
  assumes "Hist2D t bd b X Y W n_evts hist nx ny px py h = Some h'" and "q \<noteq> hist"
  shows "h' q = h q"
  using assms
  by (auto simp: Hist2D_def Let_def bind_eq_Some_conv split: if_splits dest: atomicAdd_frame)

lemma run_workers_frame:
  assumes "\<And>t b h h'. k t bd b h = Some h' \<Longrightarrow> h' q = h q"
    and "run_workers k bd ws h = Some h'"
  shows "h' q = h q"
  using assms(2)
proof (induction ws arbitrary: h)
  case Nil
  then show ?case by simp
next
  case (Cons w ws)
  obtain b t where w: "w = (b, t)" by (cases w)
  from Cons.prems obtain h1 where h1: "k t bd b h = Some h1" "run_workers k bd ws h1 = Some h'"
    by (auto simp: w split: option.splits)
  have "h' q = h1 q" by (rule Cons.IH[OF h1(2)])
  also have "h1 q = h q" by (rule assms(1)[OF h1(1)])
  finally show ?case .
qed

lemma launch_frame:
  assumes "launch (\<lambda>t bd b. Hist2D t bd b X Y W n_evts hist nx ny px py) bd gdim h = Some h'"
    and "q \<noteq> hist"
  shows "h' q = h q"
proof -
  from assms(1) have "run_workers (\<lambda>t bd b. Hist2D t bd b X Y W n_evts hist nx ny px py) bd
      (List.product [0..<nat gdim] [0..<bd]) h = Some h'"
    by (simp add: launch_def split: if_splits)
  then show ?thesis
    by (rule run_workers_frame[rotated]) (rule Hist2D_frame[OF _ assms(2)])
qed

lemma clear_frame:
  assumes "clear self dev = Some (self1, dev1)"
  shows "self1 = self\<lparr>hist2d := hist2d self1\<rparr>" and "next_ptr dev1 = next_ptr dev"
    and "q \<noteq> d_hist2d self \<Longrightarrow> mem dev1 q = mem dev q"
  using assms
  by (auto simp: clear_def memcpy_htod_def bind_eq_Some_conv split: option.splits if_splits)

text \<open>
  Claim C10 (frame). A call of \<^verbatim>\<open>get_hist\<close> that returns has changed no device
  allocation other than the histogram of the object: the coordinate arrays, the weights
  and the bin edges (and any other allocation) hold what they held before; the object
  keeps its bin counts and its device pointers.
\<close>

theorem get_hist_frame:
  assumes "get_hist self dev n_evts d_x d_y d_w = Some (r, self', dev')"
  shows "(\<forall>q. q \<noteq> d_hist2d self \<longrightarrow> mem dev' q = mem dev q) \<and>
         next_ptr dev' = next_ptr dev \<and>
         n_bins_x self' = n_bins_x self \<and> n_bins_y self' = n_bins_y self \<and>
         d_hist2d self' = d_hist2d self \<and>
         d_bin_edges_x self' = d_bin_edges_x self \<and> d_bin_edges_y self' = d_bin_edges_y self"
proof -
  from assms obtain self1 dev1 h hst where
    cl: "clear self dev = Some (self1, dev1)" and
    la: "launch (\<lambda>t bd b. Hist2D t bd b d_x d_y d_w n_evts (d_hist2d self1)
                       (n_bins_x self1) (n_bins_y self1)
                       (d_bin_edges_x self1) (d_bin_edges_y self1))
               256 ((n_evts div 256 + (if n_evts mod 256 > 0 then 1 else 0)) * 256) (mem dev1) = Some h" and
    res: "self' = self1\<lparr>hist2d := hst\<rparr>" "dev' = dev1\<lparr>mem := h\<rparr>"
    by (auto simp: get_hist_def Let_def bind_eq_Some_conv)
  note c = clear_frame[OF cl]
  have p: "d_hist2d self1 = d_hist2d self" by (subst c(1)) simp
  have fields: "n_bins_x self1 = n_bins_x self" "n_bins_y self1 = n_bins_y self"
      "d_bin_edges_x self1 = d_bin_edges_x self" "d_bin_edges_y self1 = d_bin_edges_y self"
    by (subst c(1), simp)+
  have "mem dev' q = mem dev q" if "q \<noteq> d_hist2d self" for q
  proof -
    have "h q = mem dev1 q" using launch_frame[OF la] that p by simp
    with c(3)[OF that] show ?thesis by (simp add: res)
  qed
  then show ?thesis using c(2) p fields by (simp add: res)
qed

theorem get_hist_frame_witness:
  "mem (ex_dev\<lparr>mem := ex_heap(3 \<mapsto> [0, 1, 0, 2])\<rparr>) 0 = mem ex_dev 0 \<and>
   mem (ex_dev\<lparr>mem := ex_heap(3 \<mapsto> [0, 1, 0, 2])\<rparr>) 1 = mem ex_dev 1 \<and>
   mem (ex_dev\<lparr>mem := ex_heap(3 \<mapsto> [0, 1, 0, 2])\<rparr>) 2 = mem ex_dev 2 \<and>
   mem (ex_dev\<lparr>mem := ex_heap(3 \<mapsto> [0, 1, 0, 2])\<rparr>) 4 = mem ex_dev 4 \<and>
   mem (ex_dev\<lparr>mem := ex_heap(3 \<mapsto> [0, 1, 0, 2])\<rparr>) 5 = mem ex_dev 5"
  using get_hist_frame[OF ex_get_hist] by (simp add: ex_self_def)

subsection \<open>Two passes in a row\<close>

lemma add_evts_cong:
  assumes "h X = h' X" "h Y = h' Y" "h px = h' px" "h py = h' py"
  shows "add_evts h X Y ws nx ny px py n hb = add_evts h' X Y ws nx ny px py n hb"
proof -
  have "add_evt h X Y ws nx ny px py = add_evt h' X Y ws nx ny px py"
    by (intro ext) (simp add: add_evt_def evt_bin_cong[OF assms])
  then show ?thesis by (simp add: add_evts_def)
qed

lemma rows_concat:
  assumes "length (a::'a list) = n * m"
  shows "concat (map (\<lambda>i. take m (drop (i * m) a)) [0..<n]) = a"
  using assms by (simp add: concat_rows)

text \<open>
  Up to \<open>2 ^ 23\<close> events, two calls of \<^verbatim>\<open>get_hist\<close> in a row with the same sample, weights
  and edges both return, and return the same histogram: \<^verbatim>\<open>clear\<close> zeroes the device
  histogram at the start of every pass, whatever it held, so the second pass does not add
  to the first (the total of either histogram is the sum of the in-range weights, once).
\<close>

lemma get_hist_twice:
  assumes inv: "GPUhist_inv self dev ex ey"
    and srt: "sorted_wrt (<) ex" "sorted_wrt (<) ey"
    and X: "mem dev d_x = Some xs" and Y: "mem dev d_y = Some ys" and W: "mem dev d_w = Some ws"
    and lens: "n_evts \<le> int (length xs)" "n_evts \<le> int (length ys)" "n_evts \<le> int (length ws)"
    and dis: "d_hist2d self \<noteq> d_x" "d_hist2d self \<noteq> d_y" "d_hist2d self \<noteq> d_w"
    and n: "1 \<le> n_evts" "n_evts \<le> 2 ^ 23"
  shows "\<exists>r self1 dev1 self2 dev2.
           get_hist self dev n_evts d_x d_y d_w = Some (r, self1, dev1) \<and>
           get_hist self1 dev1 n_evts d_x d_y d_w = Some (r, self2, dev2) \<and>
           sum_list (concat r) =
             (\<Sum>i\<leftarrow>[0..<nat n_evts]. if evt_in_range ex ey xs ys i then ws ! i else 0)"
proof -
  let ?nx = "n_bins_x self" and ?ny = "n_bins_y self"
  let ?H = "hist_of self (mem dev) n_evts d_x d_y ws"
  let ?r = "map (\<lambda>i. take (nat ?ny) (drop (i * nat ?ny) ?H)) [0..<nat ?nx]"
  let ?self1 = "self\<lparr>hist2d := ?H\<rparr>"
  let ?dev1 = "dev\<lparr>mem := (mem dev)(d_hist2d self \<mapsto> ?H)\<rparr>"
  from inv have i: "int (length ex) = ?nx + 1" "int (length ey) = ?ny + 1" "1 \<le> ?nx" "1 \<le> ?ny"
      "mem dev (d_bin_edges_x self) = Some ex" "mem dev (d_bin_edges_y self) = Some ey"
      "d_hist2d self \<noteq> d_bin_edges_x self" "d_hist2d self \<noteq> d_bin_edges_y self"
    by (auto simp: GPUhist_inv_def)
  have lenH: "length ?H = nat (?nx * ?ny)" by (simp add: hist_of_def)
  have first: "get_hist self dev n_evts d_x d_y d_w = Some (?r, ?self1, ?dev1)"
    by (rule get_hist_eval[OF inv srt X Y W lens dis n])
  have inv1: "GPUhist_inv ?self1 ?dev1 ex ey"
    using inv lenH by (simp add: GPUhist_inv_def)
  have same: "hist_of ?self1 (mem ?dev1) n_evts d_x d_y ws = ?H"
    unfolding hist_of_def using dis i(7,8)
    by (simp, intro add_evts_cong) simp_all
  have X1: "mem ?dev1 d_x = Some xs" and Y1: "mem ?dev1 d_y = Some ys"
    and W1: "mem ?dev1 d_w = Some ws"
    using X Y W dis by simp_all
  have dis1: "d_hist2d ?self1 \<noteq> d_x" "d_hist2d ?self1 \<noteq> d_y" "d_hist2d ?self1 \<noteq> d_w"
    using dis by simp_all
  have "get_hist ?self1 ?dev1 n_evts d_x d_y d_w =
      Some (map (\<lambda>i. take (nat (n_bins_y ?self1))
                  (drop (i * nat (n_bins_y ?self1)) (hist_of ?self1 (mem ?dev1) n_evts d_x d_y ws)))
             [0..<nat (n_bins_x ?self1)],
           ?self1\<lparr>hist2d := hist_of ?self1 (mem ?dev1) n_evts d_x d_y ws\<rparr>,
           ?dev1\<lparr>mem := (mem ?dev1)(d_hist2d ?self1 \<mapsto> hist_of ?self1 (mem ?dev1) n_evts d_x d_y ws)\<rparr>)"
    by (rule get_hist_eval[OF inv1 srt X1 Y1 W1 lens dis1 n])
  then have second: "get_hist ?self1 ?dev1 n_evts d_x d_y d_w =
      Some (?r, ?self1\<lparr>hist2d := ?H\<rparr>, ?dev1\<lparr>mem := (mem ?dev1)(d_hist2d ?self1 \<mapsto> ?H)\<rparr>)"
    by (simp only: same) simp
  have "nat (?nx * ?ny) = nat ?nx * nat ?ny" using i(3,4) by (simp add: nat_mult_distrib)
  then have "concat ?r = ?H" using lenH by (intro rows_concat) simp
  moreover have "sum_list ?H =
      (\<Sum>i\<leftarrow>[0..<nat n_evts]. if evt_in_range ex ey xs ys i then ws ! i else 0)"
    unfolding hist_of_def
    by (rule add_evts_zero_facts(1)[OF i(5) i(1) srt(1) i(3) i(6) i(2) srt(2) i(4) X Y lens(1,2)])
  ultimately have "sum_list (concat ?r) =
      (\<Sum>i\<leftarrow>[0..<nat n_evts]. if evt_in_range ex ey xs ys i then ws ! i else 0)" by simp
  with first second show ?thesis by blast
qed

lemma get_hist_twice_example:
  "\<exists>self2 dev2.
     get_hist ex_self ex_dev 3 0 1 2 =
       Some ([[0, 1], [0, 2]], ex_self\<lparr>hist2d := [0, 1, 0, 2]\<rparr>,
             ex_dev\<lparr>mem := ex_heap(3 \<mapsto> [0, 1, 0, 2])\<rparr>) \<and>
     get_hist (ex_self\<lparr>hist2d := [0, 1, 0, 2]\<rparr>) (ex_dev\<lparr>mem := ex_heap(3 \<mapsto> [0, 1, 0, 2])\<rparr>)
       3 0 1 2 = Some ([[0, 1], [0, 2]], self2, dev2)"
proof -
  have m: "mem ex_dev = ex_heap" by (simp add: ex_dev_def)
  have "\<exists>r self1 dev1 self2 dev2.
           get_hist ex_self ex_dev 3 0 1 2 = Some (r, self1, dev1) \<and>
           get_hist self1 dev1 3 0 1 2 = Some (r, self2, dev2) \<and>
           sum_list (concat r) =
             (\<Sum>i\<leftarrow>[0..<nat 3].
                if evt_in_range [0, 1, 2] [0, 1, 2] [1/2, 2, -1/2] [3/2, 2, 1] i
                then [1, 2, 4] ! i else 0)"
    by (rule get_hist_twice[OF ex_inv]) (simp_all add: m ex_heap_def ex_self_def)
  then obtain r self1 dev1 self2 dev2 where
    a: "get_hist ex_self ex_dev 3 0 1 2 = Some (r, self1, dev1)" and
    b: "get_hist self1 dev1 3 0 1 2 = Some (r, self2, dev2)"
    by blast
  from a[unfolded ex_get_hist]
  have e: "r = [[0, 1], [0, 2]]" "self1 = ex_self\<lparr>hist2d := [0, 1, 0, 2]\<rparr>"
      "dev1 = ex_dev\<lparr>mem := ex_heap(3 \<mapsto> [0, 1, 0, 2])\<rparr>"
    by simp_all
  show ?thesis
    using b unfolding e by (intro exI[of _ self2] exI[of _ dev2] conjI ex_get_hist)
qed

subsection \<open>Workers and events\<close>

text \<open>
  \<^verbatim>\<open>get_hist\<close> passes \<^verbatim>\<open>(dx + (mx>0)) * bdim[0]\<close> as the number of blocks: the count of
  blocks needed, times the block size again. Up to \<open>2 ^ 23\<close> events the thread indices
  \<^verbatim>\<open>threadIdx.x + blockDim.x * blockIdx.x\<close> of the launch are \<open>0, 1, \<dots>\<close> without repetition
  and reach past the last event, so each event has exactly one worker and the workers
  beyond the events do nothing (\<open>launch_Hist2D\<close> adds each event once).
\<close>

lemma worker_indices:
  assumes "bd * G \<le> 2 ^ 31"
  shows "map (\<lambda>(b, t). thread_idx t bd b) (List.product [0..<G] [0..<bd]) = map int [0..<bd * G]"
proof -
  have "thread_idx t bd b = int (t + bd * b)" if "(b, t) \<in> set (List.product [0..<G] [0..<bd])" for b t
  proof -
    from that have bt: "b < G" "t < bd" by auto
    have "bd * Suc b \<le> bd * G" using bt(1) by (intro mult_le_mono2) simp
    then have "t + bd * b < bd * G" using bt(2) by simp
    with assms show ?thesis by (intro thread_idx_small) simp
  qed
  then have "map (\<lambda>(b, t). thread_idx t bd b) (List.product [0..<G] [0..<bd]) =
             map (\<lambda>(b, t). int (t + bd * b)) (List.product [0..<G] [0..<bd])"
    by (intro map_cong) auto
  also have "\<dots> = map int (map (\<lambda>(b, t). t + bd * b) (List.product [0..<G] [0..<bd]))"
    by (simp add: split_def)
  also have "\<dots> = map int [0..<bd * G]" by (simp only: map_index_product)
  finally show ?thesis .
qed

lemma get_hist_workers_cover:
  assumes n: "1 \<le> n_evts" "n_evts \<le> 2 ^ 23"
  defines "gdim \<equiv> (n_evts div 256 + (if n_evts mod 256 > 0 then 1 else 0)) * 256"
  shows "map (\<lambda>(b, t). thread_idx t 256 b) (List.product [0..<nat gdim] [0..<256]) =
           map int [0..<256 * nat gdim]"
    and "nat n_evts \<le> 256 * nat gdim"
proof -
  have gb: "0 < gdim" "n_evts \<le> gdim" "gdim \<le> 2 ^ 23"
    using gdim_bounds[OF n] by (simp_all add: gdim_def)
  have "256 * nat gdim \<le> (2::nat) ^ 31" using gb by simp
  then show "map (\<lambda>(b, t). thread_idx t 256 b) (List.product [0..<nat gdim] [0..<256]) =
           map int [0..<256 * nat gdim]"
    by (rule worker_indices)
  show "nat n_evts \<le> 256 * nat gdim" using gb by simp
qed

text \<open>
  With one event more the grid has \<open>8388864\<close> blocks, and for block \<open>8388608\<close> the index
  is \<open>2 ^ 31\<close> as an unsigned value, that is \<open>- 2 ^ 31\<close> as the \<^verbatim>\<open>int idx\<close> of the kernel. The
  test \<^verbatim>\<open>idx < n_evts\<close> passes and the worker reads \<^verbatim>\<open>X[idx]\<close> before the start of the
  array.
\<close>

lemma run_workers_fault:
  assumes "(b, t) \<in> set ws" and "\<And>h. k t bd b h = None"
  shows "run_workers k bd ws h = None"
  using assms(1)
proof (induction ws arbitrary: h)
  case Nil
  then show ?case by simp
next
  case (Cons w ws)
  obtain b' t' where w: "w = (b', t')" by (cases w)
  show ?case
  proof (cases "w = (b, t)")
    case True
    then show ?thesis by (simp add: assms(2))
  next
    case False
    with Cons.prems have "(b, t) \<in> set ws" by simp
    then have "run_workers k bd ws h' = None" for h' by (rule Cons.IH)
    then show ?thesis by (simp add: w split: option.splits)
  qed
qed

lemma thread_idx_wraps: "thread_idx 0 256 8388608 = - 2147483648"
  by (simp add: thread_idx_def to_int32_def)

lemma Hist2D_negative_index:
  "Hist2D 0 256 8388608 X Y W 8388609 hist nx ny px py h = None"
  by (simp add: Hist2D_def thread_idx_wraps ld_def split: option.splits)

text \<open>
  Claim C9 (each event in exactly one worker, for every \<open>n_evts \<ge> 1\<close>; workers at or
  beyond \<open>n_evts\<close> add nothing). The code does not keep this for every \<open>n_evts\<close>: for
  \<open>n_evts = 8388609\<close> the launch of \<^verbatim>\<open>get_hist\<close> contains a worker whose index is negative,
  which is neither an event nor skipped, and the pass has no defined result, whatever
  the object and the arrays are.
\<close>

theorem get_hist_large_sample_fails:
  "get_hist self dev 8388609 d_x d_y d_w = None"
proof (cases "clear self dev")
  case None
  then show ?thesis by (simp add: get_hist_def)
next
  case (Some c)
  obtain self1 dev1 where c: "c = (self1, dev1)" by (cases c)
  have g: "((8388609::int) div 256 + (if (8388609::int) mod 256 > 0 then 1 else 0)) * 256 = 8388864"
    by simp
  have "(8388608, 0) \<in> set (List.product [0..<nat 8388864] [0..<256])" by simp
  then have "run_workers (\<lambda>t bd b. Hist2D t bd b d_x d_y d_w 8388609 (d_hist2d self1)
                       (n_bins_x self1) (n_bins_y self1)
                       (d_bin_edges_x self1) (d_bin_edges_y self1)) 256
       (List.product [0..<nat 8388864] [0..<256]) (mem dev1) = None"
    by (rule run_workers_fault) (rule Hist2D_negative_index)
  then have "launch (\<lambda>t bd b. Hist2D t bd b d_x d_y d_w 8388609 (d_hist2d self1)
                       (n_bins_x self1) (n_bins_y self1)
                       (d_bin_edges_x self1) (d_bin_edges_y self1)) 256 8388864 (mem dev1) = None"
    by (simp add: launch_def)
  then show ?thesis
    unfolding get_hist_def Let_def using Some c by (simp add: g)
qed

subsection \<open>Two passes over a large sample\<close>

lemma launch_negative_index:
  "launch (\<lambda>t bd b. Hist2D t bd b X Y W 8388609 hist nx ny px py) 256 8388864 h = None"
proof -
  have "(8388608, 0) \<in> set (List.product [0..<nat 8388864] [0..<256])" by simp
  then have "run_workers (\<lambda>t bd b. Hist2D t bd b X Y W 8388609 hist nx ny px py) 256
       (List.product [0..<nat 8388864] [0..<256]) h = None"
    by (rule run_workers_fault) (rule Hist2D_negative_index)
  then show ?thesis by (simp add: launch_def)
qed

text \<open>
  Claim C6 (idempotence: two calls with the same sample, weights and binning yield the
  same histogram). The code does not keep this for every sample: with \<open>n_evts = 8388609\<close>
  two calls of \<^verbatim>\<open>get_hist\<close> in a row yield no pair of histograms at all, whatever the
  object and the arrays are, because the launch of the first call already contains the
  worker of negative index that reads before the start of its array. Up to \<open>2 ^ 23\<close>
  events the two calls return the same histogram (\<open>get_hist_twice\<close>).
\<close>

theorem get_hist_twice_large_sample:
  "do { (r1, self1, dev1) \<leftarrow> get_hist self dev 8388609 d_x d_y d_w;
        (r2, self2, dev2) \<leftarrow> get_hist self1 dev1 8388609 d_x d_y d_w;
        Some (r1, r2) } = None"
proof -
  have g: "((8388609::int) div 256 + (if (8388609::int) mod 256 > 0 then 1 else 0)) * 256 = 8388864"
    by simp
  have "get_hist self dev 8388609 d_x d_y d_w = None"
  proof (cases "clear self dev")
    case None
    then show ?thesis by (simp add: get_hist_def)
  next
    case (Some c)
    obtain self1 dev1 where c: "c = (self1, dev1)" by (cases c)
    show ?thesis
      unfolding get_hist_def Let_def using Some c by (simp add: g launch_negative_index)
  qed
  then show ?thesis by simp
qed

section \<open>Properties of the histogram stage\<close>

subsection \<open>The two binnings of a transform share no name\<close>

lemma setup_container_transform_binning:
  "setup_container tb self k = Inr s \<Longrightarrow> transform_binning s = transform_binning self"
  by (auto simp: setup_container_def Let_def split: sum.splits)

lemma for_containers_setup_transform_binning:
  "for_containers (setup_container tb) ks self = Inr s \<Longrightarrow>
   transform_binning s = transform_binning self"
proof (induction ks arbitrary: self)
  case Nil
  then show ?case by simp
next
  case (Cons k ks)
  from Cons.prems obtain s1 where s1: "setup_container tb self k = Inr s1"
      "for_containers (setup_container tb) ks s1 = Inr s"
    by (auto split: sum.splits)
  from Cons.IH[OF s1(2)] setup_container_transform_binning[OF s1(1)] show ?case by simp
qed

lemma ex_transform:
  "histogram [[1/2, 1/2, 3/2], [1/2, 3/2, 3/2]] None (cbin @ abin) False = Inr [1, 1, 0, 1]"
  by code_simp

lemma ex_mean_weights: "histogram [[1/2, 1/2, 3/2]] (Some [1, 2, 4]) cbin True = Inr [3/2, 4]"
  by code_simp

lemma ex_sum_weights: "histogram [[1/2, 1/2, 3/2]] (Some [1, 2, 4]) cbin False = Inr [3, 4]"
  by code_simp

lemma ex_direct: "histogram [[1/2, 3/2, 3/2]] (Some [1, 2, 4]) abin False = Inr [1, 6]"
  by code_simp

lemma ex_names: "names (cbin @ abin) = [''true_e'', ''reco_e'']" "names cbin = [''true_e'']"
    "names abin = [''reco_e'']"
  by (simp_all add: names_def cbin_def abin_def)

lemma ex_setup: "setup_function ex_stage = Inr ex_ready"
  by (simp add: setup_function_def ex_ready_def ex_stage_def ex_names setup_container_def
      set_representation_def ex_container_def getitem_def setitem_def ex_transform Let_def)

text \<open>
  Claim C7 (exclusive binnings). With a calculation binning and an apply binning,
  \<^verbatim>\<open>setup_function\<close> fails with an assertion error whenever the two share a dimension
  name, before it has touched the stage (no transform binning is set, no container is
  read or written), so a run of the stage ends there and no apply call is made; and when
  \<^verbatim>\<open>setup_function\<close> returns, the names were disjoint and the transform binning is the
  concatenation of the two.
\<close>

theorem setup_function_exclusive:
  assumes cm: "calc_mode self = Binned cb" and am: "apply_mode self = Binned ab"
  shows "(set (names cb) \<inter> set (names ab) \<noteq> {} \<longrightarrow>
            setup_function self = Inl (AssertionError, self) \<and>
            (\<forall>n. run_stage n self = Inl (AssertionError, self))) \<and>
         (\<forall>s. setup_function self = Inr s \<longrightarrow>
            set (names cb) \<inter> set (names ab) = {} \<and>
            transform_binning s = Some (cb @ ab))"
proof (intro conjI impI allI)
  assume sh: "set (names cb) \<inter> set (names ab) \<noteq> {}"
  then show f: "setup_function self = Inl (AssertionError, self)"
    using cm am by (simp add: setup_function_def)
  show "run_stage n self = Inl (AssertionError, self)" for n
    by (simp add: run_stage_def f)
next
  fix s assume ok: "setup_function self = Inr s"
  show dj: "set (names cb) \<inter> set (names ab) = {}"
  proof (rule ccontr)
    assume "set (names cb) \<inter> set (names ab) \<noteq> {}"
    then have "setup_function self = Inl (AssertionError, self)"
      using cm am by (simp add: setup_function_def)
    with ok show False by simp
  qed
  from ok dj have "for_containers (setup_container (cb @ ab)) [0..<length (data self)]
      (self\<lparr>transform_binning := Some (cb @ ab)\<rparr>) = Inr s"
    using cm am by (simp add: setup_function_def Let_def)
  from for_containers_setup_transform_binning[OF this]
  show "transform_binning s = Some (cb @ ab)" by simp
qed

theorem setup_function_exclusive_witness:
  "setup_function (ex_stage\<lparr>apply_mode := Binned cbin\<rparr>) =
     Inl (AssertionError, ex_stage\<lparr>apply_mode := Binned cbin\<rparr>) \<and>
   run_stage 3 (ex_stage\<lparr>apply_mode := Binned cbin\<rparr>) =
     Inl (AssertionError, ex_stage\<lparr>apply_mode := Binned cbin\<rparr>) \<and>
   set (names cbin) \<inter> set (names abin) = {} \<and>
   (\<exists>s. setup_function ex_stage = Inr s \<and> transform_binning s = Some (cbin @ abin))"
proof -
  have bad: "set (names cbin) \<inter> set (names cbin) \<noteq> {}" by (simp add: names_def cbin_def)
  have a: "setup_function (ex_stage\<lparr>apply_mode := Binned cbin\<rparr>) =
             Inl (AssertionError, ex_stage\<lparr>apply_mode := Binned cbin\<rparr>) \<and>
           (\<forall>n. run_stage n (ex_stage\<lparr>apply_mode := Binned cbin\<rparr>) =
             Inl (AssertionError, ex_stage\<lparr>apply_mode := Binned cbin\<rparr>))"
    using setup_function_exclusive[of "ex_stage\<lparr>apply_mode := Binned cbin\<rparr>" cbin cbin] bad
    by (simp add: ex_stage_def)
  have b: "\<forall>s. setup_function ex_stage = Inr s \<longrightarrow>
            set (names cbin) \<inter> set (names abin) = {} \<and>
            transform_binning s = Some (cbin @ abin)"
    using setup_function_exclusive[of ex_stage cbin abin] by (simp add: ex_stage_def)
  from b ex_setup have "set (names cbin) \<inter> set (names abin) = {}"
    and "\<exists>s. setup_function ex_stage = Inr s \<and> transform_binning s = Some (cbin @ abin)"
    by auto
  with a show ?thesis by blast
qed

subsection \<open>Applying a transform\<close>

lemma foldl_axpy:
  fixes w acc :: "fType list" and rows :: "fType list list"
  assumes "length w = length rows" "\<forall>r\<in>set rows. length r = m" "length acc = m"
  shows "length (foldl (\<lambda>acc (wi, row). map2 (+) acc (map ((*) wi) row)) acc (zip w rows)) = m \<and>
         (\<forall>j<m. foldl (\<lambda>acc (wi, row). map2 (+) acc (map ((*) wi) row)) acc (zip w rows) ! j
                 = acc ! j + (\<Sum>i<length rows. w ! i * rows ! i ! j))"
  using assms
proof (induction rows arbitrary: w acc)
  case Nil
  then show ?case by simp
next
  case (Cons r rows)
  then obtain wi w' where w: "w = wi # w'" by (cases w) auto
  let ?acc = "map2 (+) acc (map ((*) wi) r)"
  let ?f = "\<lambda>acc (wi, row). map2 (+) acc (map ((*) (wi::real)) row)"
  have lr: "length r = m" using Cons.prems by simp
  have la: "length ?acc = m" using Cons.prems lr by simp
  have IH: "length (foldl ?f ?acc (zip w' rows)) = m \<and>
         (\<forall>j<m. foldl ?f ?acc (zip w' rows) ! j = ?acc ! j + (\<Sum>i<length rows. w' ! i * rows ! i ! j))"
    using Cons.prems w la by (intro Cons.IH) simp_all
  have "foldl ?f acc (zip w (r # rows)) ! j = acc ! j + (\<Sum>i<length (r # rows). w ! i * (r # rows) ! i ! j)"
    if "j < m" for j
  proof -
    have "?acc ! j = acc ! j + wi * r ! j" using that lr Cons.prems(3) by simp
    moreover have "(\<Sum>i<Suc (length rows). w ! i * (r # rows) ! i ! j) =
          wi * r ! j + (\<Sum>i<length rows. w' ! i * rows ! i ! j)"
      unfolding w by (subst sum.lessThan_Suc_shift) simp
    ultimately show ?thesis using IH that by (simp add: w)
  qed
  with IH show ?case by (simp add: w)
qed

lemma matmul_reshape:
  assumes n: "w \<noteq> []" and len: "length T = length w * m"
  shows "\<exists>rows. reshape_rows (length w) T = Inr rows \<and>
           matmul w rows = weights_dot_transform w T m"
proof -
  let ?n = "length w"
  have n0: "?n \<noteq> 0" using n by simp
  have dv: "length T div ?n = m" "length T mod ?n = 0" using n0 len by simp_all
  let ?rows = "map (\<lambda>i. take m (drop (i * m) T)) [0..<?n]"
  have rs: "reshape_rows ?n T = Inr ?rows" using n0 dv by (simp add: reshape_rows_def)
  have rowlen: "length (take m (drop (i * m) T)) = m" if "i < ?n" for i
  proof -
    have "Suc i * m \<le> ?n * m" using that by (intro mult_le_mono1) simp
    then have "i * m + m \<le> length T" by (simp add: len)
    then show ?thesis by simp
  qed
  then have all: "\<forall>r\<in>set ?rows. length r = m" by auto
  have hd: "length (hd ?rows) = m"
  proof -
    have "?rows \<noteq> []" using n0 by simp
    then have "hd ?rows \<in> set ?rows" by (rule hd_in_set)
    with all show ?thesis by blast
  qed
  have ax: "length (matmul w ?rows) = m \<and>
        (\<forall>j<m. matmul w ?rows ! j = replicate m 0 ! j + (\<Sum>i<length ?rows. w ! i * ?rows ! i ! j))"
    unfolding matmul_def hd
    by (rule foldl_axpy) (use all in simp_all)
  have el: "?rows ! i ! j = T ! (i * m + j)" if "i < ?n" "j < m" for i j
  proof -
    have "Suc i * m \<le> ?n * m" using that by (intro mult_le_mono1) simp
    then have "i * m + m \<le> length T" by (simp add: len)
    then show ?thesis using that by simp
  qed
  have "matmul w ?rows = map (\<lambda>j. \<Sum>i<?n. w ! i * T ! (i * m + j)) [0..<m]"
  proof (rule nth_equalityI)
    show "length (matmul w ?rows) = length (map (\<lambda>j. \<Sum>i<?n. w ! i * T ! (i * m + j)) [0..<m])"
      using ax by simp
    fix j assume "j < length (matmul w ?rows)"
    then have j: "j < m" using ax by simp
    have "matmul w ?rows ! j = (\<Sum>i<?n. w ! i * ?rows ! i ! j)" using ax j by simp
    also have "\<dots> = (\<Sum>i<?n. w ! i * T ! (i * m + j))"
      by (rule sum.cong) (use el j in auto)
    finally show "matmul w ?rows ! j = map (\<lambda>j. \<Sum>i<?n. w ! i * T ! (i * m + j)) [0..<m] ! j"
      using j by simp
  qed
  with rs show ?thesis unfolding weights_dot_transform_def by blast
qed

lemma Container_view_eq:
  "attrs c' = attrs c \<Longrightarrow> averaged_view c' = averaged_view c \<Longrightarrow>
   c'\<lparr>representation := m\<rparr> = (c\<lparr>representation := m\<rparr> :: Container)"
  by (cases c, cases c') simp

lemma getitem_view_cong:
  "attrs c' = attrs c \<Longrightarrow> averaged_view c' = averaged_view c \<Longrightarrow>
   getitem (c'\<lparr>representation := m\<rparr>) key = getitem (c\<lparr>representation := m\<rparr>) key"
  by (rule arg_cong[where f="\<lambda>x. getitem x key"]) (rule Container_view_eq)

lemma square_power2: "square w = map (\<lambda>x. x\<^sup>2) w"
  by (simp add: square_def power2_eq_square)

lemma apply_binned_step:
  assumes k: "k < length (data self)"
    and tb: "transform_binning self = Some tb"
    and w: "getitem ((data self ! k)\<lparr>representation := calc_mode self\<rparr>) ''weights'' = Inr w"
    and T: "getitem ((data self ! k)\<lparr>representation := Binned tb\<rparr>) ''hist_transform'' = Inr T"
    and n: "w \<noteq> []" and len: "length T = length w * m"
  shows "\<exists>s. apply_binned self k = Inr s \<and>
      calc_mode s = calc_mode self \<and> apply_mode s = apply_mode self \<and>
      error_method s = error_method self \<and> transform_binning s = transform_binning self \<and>
      length (data s) = length (data self) \<and>
      (\<forall>i. i \<noteq> k \<longrightarrow> i < length (data self) \<longrightarrow> attrs (data s ! i) = attrs (data self ! i)) \<and>
      (\<forall>i<length (data self). averaged_view (data s ! i) = averaged_view (data self ! i)) \<and>
      attrs (data s ! k) = applied_attrs self (data self ! k) w T m"
proof -
  obtain rows where rows: "reshape_rows (length w) T = Inr rows"
      "matmul w rows = weights_dot_transform w T m"
    using matmul_reshape[OF n len] by blast
  have n2: "square w \<noteq> []" and len2: "length T = length (square w) * m"
    using n len by (simp_all add: square_def)
  obtain rows2 where "reshape_rows (length (square w)) T = Inr rows2"
      "matmul (square w) rows2 = weights_dot_transform (square w) T m"
    using matmul_reshape[OF n2 len2] by blast
  then have rows2: "matmul (square w) rows = weights_dot_transform (map (\<lambda>x. x\<^sup>2) w) T m"
    using rows(1) by (simp add: square_def power2_eq_square)
  let ?c = "data self ! k"
  let ?s1 = "self\<lparr>data := (data self)[k := ?c\<lparr>representation := calc_mode self\<rparr>]\<rparr>"
  let ?s2 = "?s1\<lparr>data := set_representation (Binned tb) (data ?s1)\<rparr>"
  have d1: "data ?s1 ! k = ?c\<lparr>representation := calc_mode self\<rparr>" using k by simp
  have d2: "data ?s2 ! k = ?c\<lparr>representation := Binned tb\<rparr>"
    using k by (simp add: set_representation_def)
  have g1: "getitem (data ?s1 ! k) ''weights'' = Inr w" unfolding d1 by (rule w)
  have g2: "getitem (data ?s2 ! k) ''hist_transform'' = Inr T" unfolding d2 by (rule T)
  have tb1: "transform_binning ?s1 = Some tb" using tb by simp
  let ?c1 = "(data ?s2 ! k)\<lparr>representation := apply_mode ?s2\<rparr>"
  let ?c2 = "setitem ?c1 ''weights'' (matmul w rows)"
  let ?c3 = "if error_method ?s2 = ''sumw2''
             then setitem ?c2 ''errors'' (map sqrt (matmul (square w) rows)) else ?c2"
  let ?s = "?s2\<lparr>data := (data ?s2)[k := ?c3]\<rparr>"
  have run: "apply_binned self k = Inr ?s"
    unfolding apply_binned_def Let_def using g1 g2 tb1 rows(1) by simp
  have a3: "attrs ?c3 = applied_attrs self ?c w T m"
    unfolding d2 rows(2) rows2 by (simp add: applied_attrs_def setitem_def)
  have v3: "averaged_view ?c3 = averaged_view ?c"
    unfolding d2 by (simp add: setitem_def)
  have len2: "length (data ?s2) = length (data self)" by (simp add: set_representation_def)
  have o2: "attrs (data ?s2 ! i) = attrs (data self ! i) \<and>
            averaged_view (data ?s2 ! i) = averaged_view (data self ! i)"
    if "i < length (data self)" for i
    using that by (cases "i = k") (simp_all add: set_representation_def)
  have dk: "data ?s ! k = ?c3" using k len2 by simp
  have di: "data ?s ! i = data ?s2 ! i" if "i \<noteq> k" for i using that by simp
  show ?thesis
  proof (intro exI[of _ ?s] conjI allI impI)
    show "apply_binned self k = Inr ?s" by (rule run)
    show "calc_mode ?s = calc_mode self" by simp
    show "apply_mode ?s = apply_mode self" by simp
    show "error_method ?s = error_method self" by simp
    show "transform_binning ?s = transform_binning self" by simp
    show "length (data ?s) = length (data self)" by (simp add: set_representation_def)
    show "attrs (data ?s ! i) = attrs (data self ! i)"
      if "i \<noteq> k" "i < length (data self)" for i
      unfolding di[OF that(1)] using o2[OF that(2)] by simp
    show "averaged_view (data ?s ! i) = averaged_view (data self ! i)"
      if "i < length (data self)" for i
    proof (cases "i = k")
      case True
      then show ?thesis unfolding True dk v3 by simp
    next
      case False
      then show ?thesis unfolding di[OF False] using o2[OF that] by simp
    qed
    show "attrs (data ?s ! k) = applied_attrs self (data self ! k) w T m"
      unfolding dk by (rule a3)
  qed
qed

lemma for_containers_apply_binned:
  assumes "distinct ks" and "\<forall>k\<in>set ks. k < length (data self)"
    and cm: "calc_mode self = cm" and tb: "transform_binning self = Some tb"
    and pre: "\<forall>k\<in>set ks.
        getitem ((data self ! k)\<lparr>representation := cm\<rparr>) ''weights'' = Inr (W k) \<and>
        getitem ((data self ! k)\<lparr>representation := Binned tb\<rparr>) ''hist_transform'' = Inr (T k) \<and>
        W k \<noteq> [] \<and> length (T k) = length (W k) * M k"
  shows "\<exists>s. for_containers apply_binned ks self = Inr s \<and>
      calc_mode s = calc_mode self \<and> apply_mode s = apply_mode self \<and>
      error_method s = error_method self \<and> transform_binning s = transform_binning self \<and>
      length (data s) = length (data self) \<and>
      (\<forall>i. i \<notin> set ks \<longrightarrow> i < length (data self) \<longrightarrow> attrs (data s ! i) = attrs (data self ! i)) \<and>
      (\<forall>i<length (data self). averaged_view (data s ! i) = averaged_view (data self ! i)) \<and>
      (\<forall>k\<in>set ks. attrs (data s ! k) = applied_attrs self (data self ! k) (W k) (T k) (M k))"
  using assms
proof (induction ks arbitrary: self)
  case Nil
  then show ?case by simp
next
  case (Cons k ks)
  have k: "k < length (data self)" and kn: "k \<notin> set ks" and d: "distinct ks"
    using Cons.prems by simp_all
  note cm = Cons.prems(3) and tb = Cons.prems(4)
  have pk: "getitem ((data self ! k)\<lparr>representation := calc_mode self\<rparr>) ''weights'' = Inr (W k)"
      "getitem ((data self ! k)\<lparr>representation := Binned tb\<rparr>) ''hist_transform'' = Inr (T k)"
      "W k \<noteq> []" "length (T k) = length (W k) * M k"
    using Cons.prems(5) cm by simp_all
  from apply_binned_step[OF k tb pk]
  obtain s1 where s1: "apply_binned self k = Inr s1"
      "calc_mode s1 = calc_mode self" "apply_mode s1 = apply_mode self"
      "error_method s1 = error_method self" "transform_binning s1 = transform_binning self"
      "length (data s1) = length (data self)"
      "\<forall>i. i \<noteq> k \<longrightarrow> i < length (data self) \<longrightarrow> attrs (data s1 ! i) = attrs (data self ! i)"
      "\<forall>i<length (data self). averaged_view (data s1 ! i) = averaged_view (data self ! i)"
      "attrs (data s1 ! k) = applied_attrs self (data self ! k) (W k) (T k) (M k)"
    by blast
  have same: "attrs (data s1 ! j) = attrs (data self ! j)"
      "averaged_view (data s1 ! j) = averaged_view (data self ! j)" if "j \<in> set ks" for j
  proof -
    have "j \<noteq> k" "j < length (data self)" using that kn Cons.prems(2) by auto
    then show "attrs (data s1 ! j) = attrs (data self ! j)"
      "averaged_view (data s1 ! j) = averaged_view (data self ! j)" using s1(7,8) by simp_all
  qed
  have pre1: "\<forall>j\<in>set ks.
        getitem ((data s1 ! j)\<lparr>representation := cm\<rparr>) ''weights'' = Inr (W j) \<and>
        getitem ((data s1 ! j)\<lparr>representation := Binned tb\<rparr>) ''hist_transform'' = Inr (T j) \<and>
        W j \<noteq> [] \<and> length (T j) = length (W j) * M j"
  proof
    fix j assume j: "j \<in> set ks"
    have e1: "getitem ((data s1 ! j)\<lparr>representation := cm\<rparr>) ''weights''
            = getitem ((data self ! j)\<lparr>representation := cm\<rparr>) ''weights''"
      by (rule getitem_view_cong[OF same[OF j]])
    have e2: "getitem ((data s1 ! j)\<lparr>representation := Binned tb\<rparr>) ''hist_transform''
            = getitem ((data self ! j)\<lparr>representation := Binned tb\<rparr>) ''hist_transform''"
      by (rule getitem_view_cong[OF same[OF j]])
    show "getitem ((data s1 ! j)\<lparr>representation := cm\<rparr>) ''weights'' = Inr (W j) \<and>
        getitem ((data s1 ! j)\<lparr>representation := Binned tb\<rparr>) ''hist_transform'' = Inr (T j) \<and>
        W j \<noteq> [] \<and> length (T j) = length (W j) * M j"
      unfolding e1 e2 using Cons.prems(5) j by simp
  qed
  have "\<exists>s. for_containers apply_binned ks s1 = Inr s \<and>
      calc_mode s = calc_mode s1 \<and> apply_mode s = apply_mode s1 \<and>
      error_method s = error_method s1 \<and> transform_binning s = transform_binning s1 \<and>
      length (data s) = length (data s1) \<and>
      (\<forall>i. i \<notin> set ks \<longrightarrow> i < length (data s1) \<longrightarrow> attrs (data s ! i) = attrs (data s1 ! i)) \<and>
      (\<forall>i<length (data s1). averaged_view (data s ! i) = averaged_view (data s1 ! i)) \<and>
      (\<forall>j\<in>set ks. attrs (data s ! j) = applied_attrs s1 (data s1 ! j) (W j) (T j) (M j))"
    using d Cons.prems(2) s1(2,5,6) cm tb pre1
    by (intro Cons.IH) simp_all
  then obtain s where s: "for_containers apply_binned ks s1 = Inr s"
      "calc_mode s = calc_mode s1" "apply_mode s = apply_mode s1"
      "error_method s = error_method s1" "transform_binning s = transform_binning s1"
      "length (data s) = length (data s1)"
      "\<forall>i. i \<notin> set ks \<longrightarrow> i < length (data s1) \<longrightarrow> attrs (data s ! i) = attrs (data s1 ! i)"
      "\<forall>i<length (data s1). averaged_view (data s ! i) = averaged_view (data s1 ! i)"
      "\<forall>j\<in>set ks. attrs (data s ! j) = applied_attrs s1 (data s1 ! j) (W j) (T j) (M j)"
    by blast
  have run: "for_containers apply_binned (k # ks) self = Inr s" using s1(1) s(1) by simp
  have others: "attrs (data s ! i) = attrs (data self ! i)"
    if "i \<notin> set (k # ks)" "i < length (data self)" for i
    using that s(7) s1(6,7) by simp
  have views: "averaged_view (data s ! i) = averaged_view (data self ! i)"
    if "i < length (data self)" for i
    using that s(8) s1(6,8) by simp
  have headk: "attrs (data s ! k) = applied_attrs self (data self ! k) (W k) (T k) (M k)"
    using s(7) kn k s1(6,9) by simp
  have tailk: "attrs (data s ! j) = applied_attrs self (data self ! j) (W j) (T j) (M j)"
    if "j \<in> set ks" for j
    using s(9) that same(1)[OF that] s1(3,4) by (simp add: applied_attrs_def)
  have all: "\<forall>j\<in>set (k # ks).
      attrs (data s ! j) = applied_attrs self (data self ! j) (W j) (T j) (M j)"
    using headk tailk by simp
  show ?case
  proof (intro exI[of _ s] conjI)
    show "for_containers apply_binned (k # ks) self = Inr s" by (rule run)
    show "calc_mode s = calc_mode self" using s(2) s1(2) by simp
    show "apply_mode s = apply_mode self" using s(3) s1(3) by simp
    show "error_method s = error_method self" using s(4) s1(4) by simp
    show "transform_binning s = transform_binning self" using s(5) s1(5) by simp
    show "length (data s) = length (data self)" using s(6) s1(6) by simp
    show "\<forall>i. i \<notin> set (k # ks) \<longrightarrow> i < length (data self) \<longrightarrow>
        attrs (data s ! i) = attrs (data self ! i)"
      using others by blast
    show "\<forall>i<length (data self). averaged_view (data s ! i) = averaged_view (data self ! i)"
      using views by blast
    show "\<forall>j\<in>set (k # ks).
        attrs (data s ! j) = applied_attrs self (data self ! j) (W j) (T j) (M j)"
      by (rule all)
  qed
qed

lemma ex_weights_view:
  "getitem ((data ex_ready ! 0)\<lparr>representation := Binned cbin\<rparr>) ''weights'' = Inr [3/2, 4]"
  by (simp add: ex_ready_def ex_stage_def ex_container_def getitem_def ex_names
      event_array_def ex_mean_weights)

lemma ex_transform_view:
  "getitem ((data ex_ready ! 0)\<lparr>representation := Binned (cbin @ abin)\<rparr>) ''hist_transform''
     = Inr [1, 1, 0, 1]"
  by (simp add: ex_ready_def ex_stage_def ex_container_def getitem_def)

lemma ex_product: "weights_dot_transform [3/2, 4] [1, 1, 0, 1] 2 = [3/2, 11/2]"
  by (simp add: weights_dot_transform_def lessThan_Suc eval_nat_numeral)

lemma ex_product_squares:
  "weights_dot_transform (map (\<lambda>x. x\<^sup>2) [3/2, 4]) [1, 1, 0, 1] 2 = [9/4, 73/4]"
  by (simp add: weights_dot_transform_def lessThan_Suc eval_nat_numeral power2_eq_square)

text \<open>
  Claim C8 (apply is a vector-matrix product). With a transform and non-empty weights
  readable for every container (the transform having as many rows as there are
  weights), \<^verbatim>\<open>apply_function\<close> returns and leaves, for every container, the product
  \<open>weights \<cdot> transform\<close> under \<^verbatim>\<open>'weights'\<close>, tagged with the apply mode; when the error
  method is \<^verbatim>\<open>'sumw2'\<close> it also forms \<open>sumw2 = weights\<^sup>2 \<cdot> transform\<close>, the product of the
  elementwise squares of the weights with the transform, which is the sum of squared
  weights of each bin, and stores its square root under \<^verbatim>\<open>'errors'\<close>.
\<close>

theorem apply_function_product:
  assumes cm: "calc_mode self = Binned cb" and tb: "transform_binning self = Some tb"
    and pre: "\<forall>k<length (data self).
        getitem ((data self ! k)\<lparr>representation := Binned cb\<rparr>) ''weights'' = Inr (W k) \<and>
        getitem ((data self ! k)\<lparr>representation := Binned tb\<rparr>) ''hist_transform'' = Inr (T k) \<and>
        W k \<noteq> [] \<and> length (T k) = length (W k) * M k"
  shows "\<exists>s. apply_function self = Inr s \<and> length (data s) = length (data self) \<and>
      (\<forall>k<length (data self).
          attrs (data s ! k) ''weights'' =
            Some (apply_mode self, weights_dot_transform (W k) (T k) (M k)) \<and>
          (error_method self = ''sumw2'' \<longrightarrow>
             attrs (data s ! k) ''errors'' =
               Some (apply_mode self,
                     map sqrt (weights_dot_transform (map (\<lambda>x. x\<^sup>2) (W k)) (T k) (M k)))))"
proof -
  let ?ks = "[0..<length (data self)]"
  have "\<exists>s. for_containers apply_binned ?ks self = Inr s \<and>
      calc_mode s = calc_mode self \<and> apply_mode s = apply_mode self \<and>
      error_method s = error_method self \<and> transform_binning s = transform_binning self \<and>
      length (data s) = length (data self) \<and>
      (\<forall>i. i \<notin> set ?ks \<longrightarrow> i < length (data self) \<longrightarrow> attrs (data s ! i) = attrs (data self ! i)) \<and>
      (\<forall>i<length (data self). averaged_view (data s ! i) = averaged_view (data self ! i)) \<and>
      (\<forall>k\<in>set ?ks. attrs (data s ! k) = applied_attrs self (data self ! k) (W k) (T k) (M k))"
    by (rule for_containers_apply_binned[OF _ _ cm tb]) (use pre in simp_all)
  then obtain s where s: "for_containers apply_binned ?ks self = Inr s"
      "length (data s) = length (data self)"
      "\<forall>k\<in>set ?ks. attrs (data s ! k) = applied_attrs self (data self ! k) (W k) (T k) (M k)"
    by blast
  have run: "apply_function self = Inr s" using cm s(1) by (simp add: apply_function_def)
  have "attrs (data s ! k) ''weights'' =
            Some (apply_mode self, weights_dot_transform (W k) (T k) (M k)) \<and>
          (error_method self = ''sumw2'' \<longrightarrow>
             attrs (data s ! k) ''errors'' =
               Some (apply_mode self,
                     map sqrt (weights_dot_transform (map (\<lambda>x. x\<^sup>2) (W k)) (T k) (M k))))"
    if "k < length (data self)" for k
    using s(3) that by (simp add: applied_attrs_def)
  with run s(2) show ?thesis by blast
qed

text \<open>On the small stage the mean weights of the two calculation bins are \<open>3/2\<close> and \<open>4\<close>;
  their squares, not the weights themselves, make up the errors.\<close>

theorem apply_function_product_witness:
  "\<exists>s. apply_function ex_ready = Inr s \<and>
       attrs (data s ! 0) ''weights'' = Some (Binned abin, [3/2, 11/2]) \<and>
       attrs (data s ! 0) ''errors'' = Some (Binned abin, [sqrt (9/4), sqrt (73/4)])"
proof -
  have "\<exists>s. apply_function ex_ready = Inr s \<and> length (data s) = length (data ex_ready) \<and>
      (\<forall>k<length (data ex_ready).
          attrs (data s ! k) ''weights'' =
            Some (apply_mode ex_ready, weights_dot_transform [3/2, 4] [1, 1, 0, 1] 2) \<and>
          (error_method ex_ready = ''sumw2'' \<longrightarrow>
             attrs (data s ! k) ''errors'' =
               Some (apply_mode ex_ready,
                     map sqrt (weights_dot_transform (map (\<lambda>x. x\<^sup>2) [3/2, 4]) [1, 1, 0, 1] 2))))"
  proof (rule apply_function_product[where cb=cbin and tb="cbin @ abin"])
    show "calc_mode ex_ready = Binned cbin" by (simp add: ex_ready_def ex_stage_def)
    show "transform_binning ex_ready = Some (cbin @ abin)" by (simp add: ex_ready_def)
    have l: "length (data ex_ready) = 1" by (simp add: ex_ready_def)
    show "\<forall>k<length (data ex_ready).
        getitem ((data ex_ready ! k)\<lparr>representation := Binned cbin\<rparr>) ''weights'' = Inr [3/2, 4] \<and>
        getitem ((data ex_ready ! k)\<lparr>representation := Binned (cbin @ abin)\<rparr>) ''hist_transform''
          = Inr [1, 1, 0, 1] \<and>
        [3/2, 4 :: fType] \<noteq> [] \<and> length [1, 1, 0, 1 :: fType] = length [3/2, 4 :: fType] * 2"
      unfolding l using ex_weights_view ex_transform_view by simp
  qed
  then obtain s where s: "apply_function ex_ready = Inr s"
      "attrs (data s ! 0) ''weights'' =
            Some (apply_mode ex_ready, weights_dot_transform [3/2, 4] [1, 1, 0, 1] 2)"
      "attrs (data s ! 0) ''errors'' =
               Some (apply_mode ex_ready,
                     map sqrt (weights_dot_transform (map (\<lambda>x. x\<^sup>2) [3/2, 4]) [1, 1, 0, 1] 2))"
    by (auto simp: ex_ready_def ex_stage_def)
  have am: "apply_mode ex_ready = Binned abin" by (simp add: ex_ready_def ex_stage_def)
  from s show ?thesis unfolding am ex_product ex_product_squares by auto
qed

subsection \<open>The transform against the direct histogram\<close>

lemma locate_bound: "locate x es = Some i \<Longrightarrow> i < num_bins \<lparr>dim_name = nm, edges = es\<rparr>"
proof -
  assume a: "locate x es = Some i"
  let ?n = "length es - 1"
  from a have l2: "\<not> length es < 2" by (auto simp: locate_def Let_def split: if_splits)
  show ?thesis
  proof (cases "x = es ! ?n")
    case True
    with a l2 have "i = ?n - 1" by (auto simp: locate_def Let_def split: if_splits)
    with l2 show ?thesis by (simp add: num_bins_def)
  next
    case False
    with a have "find (\<lambda>b. es ! b \<le> x \<and> x < es ! (b + 1)) [0..<?n] = Some i"
      by (auto simp: locate_def Let_def split: if_splits)
    then have "i \<in> set [0..<?n]" by (auto simp: find_Some_iff)
    then show ?thesis by (simp add: num_bins_def)
  qed
qed

lemma locate_bound': "locate x (edges d) = Some i \<Longrightarrow> i < num_bins d"
  using locate_bound[of x "edges d" i "dim_name d"] by (simp add: num_bins_def)

lemma total_bins_Cons [simp]: "total_bins (d # ds) = num_bins d * total_bins ds"
  by (simp add: total_bins_def)

lemma total_bins_Nil [simp]: "total_bins [] = 1"
  by (simp add: total_bins_def)

lemma total_bins_append: "total_bins (cb @ ab) = total_bins cb * total_bins ab"
  by (simp add: total_bins_def)

lemma flat_index_bound: "flat_index b xs = Some k \<Longrightarrow> k < total_bins b"
proof (induction b xs arbitrary: k rule: flat_index.induct)
  case 1
  then show ?case by simp
next
  case (2 d ds x xs)
  from "2.prems" obtain i r where ir: "locate x (edges d) = Some i" "flat_index ds xs = Some r"
      "k = i * total_bins ds + r"
    by (auto split: option.splits)
  have i: "i < num_bins d" by (rule locate_bound'[OF ir(1)])
  have r: "r < total_bins ds" by (rule "2.IH"[OF ir(1) ir(2)])
  have "i * total_bins ds + r < Suc i * total_bins ds" using r by simp
  also have "\<dots> \<le> num_bins d * total_bins ds" using i by (intro mult_le_mono1) simp
  finally show ?case using ir(3) by simp
qed simp_all

lemma flat_index_append:
  assumes "length xc = length cb"
  shows "flat_index (cb @ ab) (xc @ xa) =
         (case flat_index cb xc of
            None \<Rightarrow> None
          | Some c \<Rightarrow> (case flat_index ab xa of
                         None \<Rightarrow> None
                       | Some a \<Rightarrow> Some (c * total_bins ab + a)))"
  using assms
proof (induction cb xc rule: flat_index.induct)
  case 1
  then show ?case by (simp split: option.splits)
next
  case (2 d ds x xs)
  then show ?case
    by (simp add: total_bins_append algebra_simps split: option.splits)
qed simp_all

lemma accumulate_facts:
  shows "length (accumulate S w b) = total_bins b"
    and "k < total_bins b \<Longrightarrow>
         accumulate S w b ! k =
           (\<Sum>e<length w. if flat_index b (event S e) = Some k then w ! e else 0)"
proof -
  define f where "f = (\<lambda>h e. case flat_index b (event S e) of
                              None \<Rightarrow> h | Some k \<Rightarrow> h[k := h ! k + w ! e])"
  have acc: "accumulate S w b = foldl f (replicate (total_bins b) 0) [0..<length w]"
    by (simp add: accumulate_def f_def)
  have lenf: "length (f h e) = length h" for h e
    by (simp add: f_def split: option.splits)
  have len: "length (foldl f h es) = length h" for h es
    by (induction es arbitrary: h) (simp_all add: lenf)
  show "length (accumulate S w b) = total_bins b" by (simp add: acc len)
  have stepk: "f h e ! k = h ! k + (if flat_index b (event S e) = Some k then w ! e else 0)"
    if "k < length h" for h e
  proof (cases "flat_index b (event S e)")
    case None
    then show ?thesis by (simp add: f_def)
  next
    case (Some k')
    then show ?thesis using that by (cases "k' = k") (simp_all add: f_def)
  qed
  have nth: "foldl f h [0..<n] ! k =
        h ! k + (\<Sum>e<n. if flat_index b (event S e) = Some k then w ! e else 0)"
    if "k < length h" for h n
  proof (induction n)
    case 0
    then show ?case by simp
  next
    case (Suc n)
    have "foldl f h [0..<Suc n] ! k = f (foldl f h [0..<n]) n ! k" by simp
    also have "\<dots> = foldl f h [0..<n] ! k +
        (if flat_index b (event S n) = Some k then w ! n else 0)"
      by (rule stepk) (simp add: len that)
    finally show ?case using Suc by simp
  qed
  assume k: "k < total_bins b"
  have "accumulate S w b ! k = replicate (total_bins b) 0 ! k +
      (\<Sum>e<length w. if flat_index b (event S e) = Some k then w ! e else 0)"
    unfolding acc by (rule nth) (simp add: k)
  then show "accumulate S w b ! k =
           (\<Sum>e<length w. if flat_index b (event S e) = Some k then w ! e else 0)"
    using k by simp
qed

lemma event_append: "event (Sc @ Sa) e = event Sc e @ event Sa e"
  by (simp add: event_def)

lemma mixed_radix_inj:
  assumes "a < m" "a' < (m::nat)" "c' * m + a' = c * m + a"
  shows "c' = c \<and> a' = a"
proof -
  have "(c' * m + a') div m = (c * m + a) div m" using assms(3) by simp
  then have "c' = c" using assms(1,2) by simp
  with assms(3) show ?thesis by simp
qed

lemma transform_product:
  assumes Sc: "length Sc = length cb"
    and wc: "length wc = total_bins cb"
    and a: "a < total_bins ab"
  shows "weights_dot_transform wc (accumulate (Sc @ Sa) (replicate n 1) (cb @ ab)) (total_bins ab) ! a
        = accumulate Sa (map (\<lambda>e. case flat_index cb (event Sc e) of None \<Rightarrow> 0 | Some c \<Rightarrow> wc ! c)
                           [0..<n]) ab ! a"
proof -
  let ?m = "total_bins ab" and ?C = "total_bins cb"
  let ?T = "accumulate (Sc @ Sa) (replicate n 1) (cb @ ab)"
  let ?ce = "\<lambda>e. flat_index cb (event Sc e)" and ?ae = "\<lambda>e. flat_index ab (event Sa e)"
  let ?w' = "map (\<lambda>e. case ?ce e of None \<Rightarrow> 0 | Some c \<Rightarrow> wc ! c) [0..<n]"
  have fi: "flat_index (cb @ ab) (event (Sc @ Sa) e) =
        (case ?ce e of None \<Rightarrow> None
         | Some c \<Rightarrow> (case ?ae e of None \<Rightarrow> None | Some a \<Rightarrow> Some (c * ?m + a)))" for e
    unfolding event_append by (rule flat_index_append) (simp add: event_def Sc)
  have ind: "(flat_index (cb @ ab) (event (Sc @ Sa) e) = Some (c * ?m + a)) =
             (?ce e = Some c \<and> ?ae e = Some a)" for e c
  proof (cases "?ce e")
    case None
    then show ?thesis by (simp add: fi)
  next
    case (Some c')
    show ?thesis
    proof (cases "?ae e")
      case None
      then show ?thesis by (simp add: fi Some)
    next
      case (Some a')
      have "a' < ?m" by (rule flat_index_bound[OF Some])
      then have "(c' * ?m + a' = c * ?m + a) = (c' = c \<and> a' = a)"
        using mixed_radix_inj[OF a, of a' c' c] by auto
      then show ?thesis by (simp add: fi \<open>?ce e = Some c'\<close> Some)
    qed
  qed
  have cell: "?T ! (c * ?m + a) = (\<Sum>e<n. if ?ce e = Some c \<and> ?ae e = Some a then 1 else 0)"
    if "c < ?C" for c
  proof -
    have "Suc c * ?m \<le> ?C * ?m" using that by (intro mult_le_mono1) simp
    then have "c * ?m + a < total_bins (cb @ ab)" using a by (simp add: total_bins_append)
    from accumulate_facts(2)[OF this, of "Sc @ Sa" "replicate n 1"]
    show ?thesis by (simp add: ind cong: if_cong)
  qed
  have "weights_dot_transform wc ?T ?m ! a = (\<Sum>c<?C. wc ! c * ?T ! (c * ?m + a))"
    using a by (simp add: weights_dot_transform_def wc)
  also have "\<dots> = (\<Sum>c<?C. wc ! c * (\<Sum>e<n. if ?ce e = Some c \<and> ?ae e = Some a then 1 else 0))"
    by (rule sum.cong) (simp_all add: cell)
  also have "\<dots> = (\<Sum>c<?C. \<Sum>e<n. if ?ce e = Some c \<and> ?ae e = Some a then wc ! c else 0)"
    by (simp add: sum_distrib_left if_distrib cong: if_cong)
  also have "\<dots> = (\<Sum>e<n. \<Sum>c<?C. if ?ce e = Some c \<and> ?ae e = Some a then wc ! c else 0)"
    by (rule sum.swap)
  also have "\<dots> = (\<Sum>e<n. if ?ae e = Some a then (case ?ce e of None \<Rightarrow> 0 | Some c \<Rightarrow> wc ! c) else 0)"
  proof (rule sum.cong[OF refl])
    fix e
    show "(\<Sum>c<?C. if ?ce e = Some c \<and> ?ae e = Some a then wc ! c else 0) =
          (if ?ae e = Some a then (case ?ce e of None \<Rightarrow> 0 | Some c \<Rightarrow> wc ! c) else 0)"
    proof (cases "?ce e")
      case None
      then show ?thesis by simp
    next
      case (Some c')
      have c': "c' < ?C" by (rule flat_index_bound[OF Some])
      have "(\<Sum>c<?C. if ?ce e = Some c \<and> ?ae e = Some a then wc ! c else 0) =
            (\<Sum>c<?C. if c = c' then (if ?ae e = Some a then wc ! c else 0) else 0)"
        by (rule sum.cong) (auto simp: Some)
      also have "\<dots> = (if ?ae e = Some a then wc ! c' else 0)"
        using c' by (simp add: sum.delta)
      finally show ?thesis by (simp add: Some)
    qed
  qed
  also have "\<dots> = (\<Sum>e<length ?w'. if ?ae e = Some a then ?w' ! e else 0)"
    by (rule sum.cong) simp_all
  also have "\<dots> = accumulate Sa ?w' ab ! a"
    by (rule accumulate_facts(2)[OF a, symmetric])
  finally show ?thesis .
qed

lemma getitems_Inr:
  "map (attrs c) ks = map (\<lambda>col. Some (representation c, col)) S \<Longrightarrow> getitems c ks = Inr S"
proof (induction ks arbitrary: S)
  case Nil
  then show ?case by simp
next
  case (Cons key ks)
  then obtain a S' where S: "S = a # S'" by (cases S) auto
  from Cons.prems have "attrs c key = Some (representation c, a)"
    and "map (attrs c) ks = map (\<lambda>col. Some (representation c, col)) S'"
    by (simp_all add: S)
  with Cons.IH[of S'] show ?case by (simp add: S getitem_def)
qed

lemma event_arrays_Inr:
  "map (attrs c) ks = map (\<lambda>col. Some (Events, col)) S \<Longrightarrow> event_arrays c ks = Inr S"
proof (induction ks arbitrary: S)
  case Nil
  then show ?case by simp
next
  case (Cons key ks)
  then obtain a S' where S: "S = a # S'" by (cases S) auto
  from Cons.prems have "attrs c key = Some (Events, a)"
    and "map (attrs c) ks = map (\<lambda>col. Some (Events, col)) S'"
    by (simp_all add: S)
  with Cons.IH[of S'] show ?case by (simp add: S event_array_def)
qed

lemma histogram_Inr:
  assumes "S \<noteq> []" "length S = length b" "\<forall>c\<in>set S. length c = length w"
  shows "histogram S (Some w) b False = Inr (accumulate S w b)"
  using assms by (cases S) (auto simp: histogram_def)

lemma histogram_unit_Inr:
  assumes "S \<noteq> []" "length S = length b" "\<forall>c\<in>set S. length c = N"
  shows "histogram S None b False = Inr (accumulate S (replicate N 1) b)"
  using assms by (cases S) (auto simp: histogram_def Let_def)

lemma setup_container_step:
  assumes k: "k < length (data self)"
    and cols: "map (attrs (data self ! k)) (names tb) = map (\<lambda>col. Some (Events, col)) S"
    and ne: "tb \<noteq> []" and eq: "\<forall>c\<in>set S. length c = N"
  shows "\<exists>s. setup_container tb self k = Inr s \<and>
      calc_mode s = calc_mode self \<and> apply_mode s = apply_mode self \<and>
      error_method s = error_method self \<and> transform_binning s = transform_binning self \<and>
      length (data s) = length (data self) \<and>
      (\<forall>i. i \<noteq> k \<longrightarrow> i < length (data self) \<longrightarrow> attrs (data s ! i) = attrs (data self ! i)) \<and>
      (\<forall>i<length (data self). averaged_view (data s ! i) = averaged_view (data self ! i)) \<and>
      attrs (data s ! k) =
        (attrs (data self ! k))
          (''hist_transform'' \<mapsto> (Binned tb, accumulate S (replicate N 1) tb))"
proof -
  let ?s1 = "self\<lparr>data := set_representation Events (data self)\<rparr>"
  have len: "length S = length tb"
    using arg_cong[OF cols, of length] by (simp add: names_def)
  then have Sne: "S \<noteq> []" using ne by auto
  have c1: "data ?s1 ! k = (data self ! k)\<lparr>representation := Events\<rparr>"
    using k by (simp add: set_representation_def)
  have g: "getitems (data ?s1 ! k) (names tb) = Inr S"
    unfolding c1 by (rule getitems_Inr) (simp add: cols)
  have h: "histogram S None tb False = Inr (accumulate S (replicate N 1) tb)"
    by (rule histogram_unit_Inr[OF Sne len eq])
  let ?s2 = "?s1\<lparr>data := set_representation (Binned tb) (data ?s1)\<rparr>"
  let ?s = "?s2\<lparr>data := (data ?s2)[k := setitem (data ?s2 ! k) ''hist_transform''
                (accumulate S (replicate N 1) tb)]\<rparr>"
  have run: "setup_container tb self k = Inr ?s"
    unfolding setup_container_def Let_def using g h by simp
  have len2: "length (data ?s2) = length (data self)" by (simp add: set_representation_def)
  have d2: "data ?s2 ! i = (data self ! i)\<lparr>representation := Binned tb\<rparr>"
    if "i < length (data self)" for i
    using that by (simp add: set_representation_def)
  have dk: "data ?s ! k = setitem (data ?s2 ! k) ''hist_transform''
                (accumulate S (replicate N 1) tb)"
    using k len2 by simp
  have di: "data ?s ! i = data ?s2 ! i" if "i \<noteq> k" for i using that by simp
  show ?thesis
  proof (intro exI[of _ ?s] conjI allI impI)
    show "setup_container tb self k = Inr ?s" by (rule run)
    show "calc_mode ?s = calc_mode self" by simp
    show "apply_mode ?s = apply_mode self" by simp
    show "error_method ?s = error_method self" by simp
    show "transform_binning ?s = transform_binning self" by simp
    show "length (data ?s) = length (data self)" by (simp add: set_representation_def)
    show "attrs (data ?s ! i) = attrs (data self ! i)"
      if "i \<noteq> k" "i < length (data self)" for i
      unfolding di[OF that(1)] d2[OF that(2)] by simp
    show "averaged_view (data ?s ! i) = averaged_view (data self ! i)"
      if "i < length (data self)" for i
    proof (cases "i = k")
      case True
      have "averaged_view (data ?s ! k) = averaged_view (data self ! k)"
        using k by (simp add: setitem_def set_representation_def)
      then show ?thesis unfolding True .
    next
      case False
      show ?thesis unfolding di[OF False] d2[OF that] by simp
    qed
    show "attrs (data ?s ! k) =
        (attrs (data self ! k))
          (''hist_transform'' \<mapsto> (Binned tb, accumulate S (replicate N 1) tb))"
      using k by (simp add: setitem_def set_representation_def)
  qed
qed

lemma for_containers_setup:
  assumes "distinct ks" and "\<forall>k\<in>set ks. k < length (data self)"
    and ne: "tb \<noteq> []"
    and pre: "\<forall>k\<in>set ks.
        map (attrs (data self ! k)) (names tb) = map (\<lambda>col. Some (Events, col)) (S k) \<and>
        (\<forall>c\<in>set (S k). length c = N k)"
  shows "\<exists>s. for_containers (setup_container tb) ks self = Inr s \<and>
      calc_mode s = calc_mode self \<and> apply_mode s = apply_mode self \<and>
      error_method s = error_method self \<and> transform_binning s = transform_binning self \<and>
      length (data s) = length (data self) \<and>
      (\<forall>i. i \<notin> set ks \<longrightarrow> i < length (data self) \<longrightarrow> attrs (data s ! i) = attrs (data self ! i)) \<and>
      (\<forall>i<length (data self). averaged_view (data s ! i) = averaged_view (data self ! i)) \<and>
      (\<forall>k\<in>set ks. attrs (data s ! k) =
         (attrs (data self ! k))
           (''hist_transform'' \<mapsto> (Binned tb, accumulate (S k) (replicate (N k) 1) tb)))"
  using assms
proof (induction ks arbitrary: self)
  case Nil
  then show ?case by simp
next
  case (Cons k ks)
  have k: "k < length (data self)" and kn: "k \<notin> set ks" and d: "distinct ks"
    using Cons.prems by simp_all
  have pk: "map (attrs (data self ! k)) (names tb) = map (\<lambda>col. Some (Events, col)) (S k)"
      "\<forall>c\<in>set (S k). length c = N k"
    using Cons.prems(4) by simp_all
  from setup_container_step[OF k pk(1) ne pk(2)]
  obtain s1 where s1: "setup_container tb self k = Inr s1"
      "calc_mode s1 = calc_mode self" "apply_mode s1 = apply_mode self"
      "error_method s1 = error_method self" "transform_binning s1 = transform_binning self"
      "length (data s1) = length (data self)"
      "\<forall>i. i \<noteq> k \<longrightarrow> i < length (data self) \<longrightarrow> attrs (data s1 ! i) = attrs (data self ! i)"
      "\<forall>i<length (data self). averaged_view (data s1 ! i) = averaged_view (data self ! i)"
      "attrs (data s1 ! k) =
        (attrs (data self ! k))
          (''hist_transform'' \<mapsto> (Binned tb, accumulate (S k) (replicate (N k) 1) tb))"
    by blast
  have same: "attrs (data s1 ! j) = attrs (data self ! j)" if "j \<in> set ks" for j
  proof -
    have "j \<noteq> k" "j < length (data self)" using that kn Cons.prems(2) by auto
    then show ?thesis using s1(7) by simp
  qed
  have pre1: "\<forall>j\<in>set ks.
        map (attrs (data s1 ! j)) (names tb) = map (\<lambda>col. Some (Events, col)) (S j) \<and>
        (\<forall>c\<in>set (S j). length c = N j)"
    using Cons.prems(4) same by simp
  have "\<exists>s. for_containers (setup_container tb) ks s1 = Inr s \<and>
      calc_mode s = calc_mode s1 \<and> apply_mode s = apply_mode s1 \<and>
      error_method s = error_method s1 \<and> transform_binning s = transform_binning s1 \<and>
      length (data s) = length (data s1) \<and>
      (\<forall>i. i \<notin> set ks \<longrightarrow> i < length (data s1) \<longrightarrow> attrs (data s ! i) = attrs (data s1 ! i)) \<and>
      (\<forall>i<length (data s1). averaged_view (data s ! i) = averaged_view (data s1 ! i)) \<and>
      (\<forall>j\<in>set ks. attrs (data s ! j) =
         (attrs (data s1 ! j))
           (''hist_transform'' \<mapsto> (Binned tb, accumulate (S j) (replicate (N j) 1) tb)))"
    using d Cons.prems(2) s1(6) ne pre1
    by (intro Cons.IH) simp_all
  then obtain s where s: "for_containers (setup_container tb) ks s1 = Inr s"
      "calc_mode s = calc_mode s1" "apply_mode s = apply_mode s1"
      "error_method s = error_method s1" "transform_binning s = transform_binning s1"
      "length (data s) = length (data s1)"
      "\<forall>i. i \<notin> set ks \<longrightarrow> i < length (data s1) \<longrightarrow> attrs (data s ! i) = attrs (data s1 ! i)"
      "\<forall>i<length (data s1). averaged_view (data s ! i) = averaged_view (data s1 ! i)"
      "\<forall>j\<in>set ks. attrs (data s ! j) =
         (attrs (data s1 ! j))
           (''hist_transform'' \<mapsto> (Binned tb, accumulate (S j) (replicate (N j) 1) tb))"
    by blast
  have run: "for_containers (setup_container tb) (k # ks) self = Inr s" using s1(1) s(1) by simp
  have others: "attrs (data s ! i) = attrs (data self ! i)"
    if "i \<notin> set (k # ks)" "i < length (data self)" for i
    using that s(7) s1(6,7) by simp
  have views: "averaged_view (data s ! i) = averaged_view (data self ! i)"
    if "i < length (data self)" for i
    using that s(8) s1(6,8) by simp
  have headk: "attrs (data s ! k) =
        (attrs (data self ! k))
          (''hist_transform'' \<mapsto> (Binned tb, accumulate (S k) (replicate (N k) 1) tb))"
    using s(7) kn k s1(6,9) by simp
  have tailk: "attrs (data s ! j) =
        (attrs (data self ! j))
          (''hist_transform'' \<mapsto> (Binned tb, accumulate (S j) (replicate (N j) 1) tb))"
    if "j \<in> set ks" for j
    using s(9) that same by simp
  have all: "\<forall>j\<in>set (k # ks). attrs (data s ! j) =
        (attrs (data self ! j))
          (''hist_transform'' \<mapsto> (Binned tb, accumulate (S j) (replicate (N j) 1) tb))"
    using headk tailk by simp
  show ?case
  proof (intro exI[of _ s] conjI)
    show "for_containers (setup_container tb) (k # ks) self = Inr s" by (rule run)
    show "calc_mode s = calc_mode self" using s(2) s1(2) by simp
    show "apply_mode s = apply_mode self" using s(3) s1(3) by simp
    show "error_method s = error_method self" using s(4) s1(4) by simp
    show "transform_binning s = transform_binning self" using s(5) s1(5) by simp
    show "length (data s) = length (data self)" using s(6) s1(6) by simp
    show "\<forall>i. i \<notin> set (k # ks) \<longrightarrow> i < length (data self) \<longrightarrow>
        attrs (data s ! i) = attrs (data self ! i)"
      using others by blast
    show "\<forall>i<length (data self). averaged_view (data s ! i) = averaged_view (data self ! i)"
      using views by blast
    show "\<forall>j\<in>set (k # ks). attrs (data s ! j) =
        (attrs (data self ! j))
          (''hist_transform'' \<mapsto> (Binned tb, accumulate (S j) (replicate (N j) 1) tb))"
      by (rule all)
  qed
qed

lemma names_append: "names (cb @ ab) = names cb @ names ab"
  by (simp add: names_def)

lemma transform_product_list:
  assumes Sc: "length Sc = length cb" and wc: "length wc = total_bins cb"
  shows "weights_dot_transform wc (accumulate (Sc @ Sa) (replicate n 1) (cb @ ab)) (total_bins ab)
        = accumulate Sa (calc_bin_weights cb Sc wc n) ab"
proof (rule nth_equalityI)
  show "length (weights_dot_transform wc (accumulate (Sc @ Sa) (replicate n 1) (cb @ ab)) (total_bins ab))
      = length (accumulate Sa (calc_bin_weights cb Sc wc n) ab)"
    by (simp add: weights_dot_transform_def accumulate_facts(1))
next
  fix a
  assume "a < length (weights_dot_transform wc (accumulate (Sc @ Sa) (replicate n 1) (cb @ ab)) (total_bins ab))"
  then have a: "a < total_bins ab" by (simp add: weights_dot_transform_def)
  show "weights_dot_transform wc (accumulate (Sc @ Sa) (replicate n 1) (cb @ ab)) (total_bins ab) ! a
      = accumulate Sa (calc_bin_weights cb Sc wc n) ab ! a"
    unfolding calc_bin_weights_def by (rule transform_product[OF Sc wc a])
qed

lemma event_arrays_cong:
  "\<forall>n\<in>set ns. attrs c' n = attrs c n \<Longrightarrow> event_arrays c' ns = event_arrays c ns"
  by (induction ns) (simp_all add: event_array_def cong: sum.case_cong)

lemma getitem_other_attr:
  assumes a: "attrs c' = (attrs c)(h \<mapsto> v)" and v: "averaged_view c' = averaged_view c"
    and key: "key \<noteq> h" and h: "h \<notin> set (names b)"
  shows "getitem (c'\<lparr>representation := Binned b\<rparr>) key = getitem (c\<lparr>representation := Binned b\<rparr>) key"
proof -
  have "\<forall>n\<in>set (names b). attrs (c'\<lparr>representation := Binned b\<rparr>) n
          = attrs (c\<lparr>representation := Binned b\<rparr>) n"
    using a h by auto
  then have e: "event_arrays (c'\<lparr>representation := Binned b\<rparr>) (names b)
              = event_arrays (c\<lparr>representation := Binned b\<rparr>) (names b)"
    by (rule event_arrays_cong)
  have k: "attrs c' key = attrs c key" using a key by simp
  show ?thesis
    by (simp add: getitem_def k v e split: option.splits prod.splits mode.splits
        cong: sum.case_cong)
qed

lemma setup_then_apply:
  assumes cm: "calc_mode self = Binned cb" and am: "apply_mode self = Binned ab"
    and excl: "set (names cb) \<inter> set (names ab) = {}"
    and ne: "cb \<noteq> []"
    and ht: "''hist_transform'' \<notin> set (names cb)"
    and pre: "\<forall>k<length (data self).
        map (attrs (data self ! k)) (names cb) = map (\<lambda>col. Some (Events, col)) (Sc k) \<and>
        map (attrs (data self ! k)) (names ab) = map (\<lambda>col. Some (Events, col)) (Sa k) \<and>
        (\<forall>c\<in>set (Sc k @ Sa k). length c = N k) \<and>
        getitem ((data self ! k)\<lparr>representation := Binned cb\<rparr>) ''weights'' = Inr (W k) \<and>
        length (W k) = total_bins cb \<and> W k \<noteq> []"
  shows "\<exists>s. run_stage 1 self = Inr s \<and> length (data s) = length (data self) \<and>
      (\<forall>k<length (data self).
         attrs (data s ! k) ''weights'' =
           Some (Binned ab, accumulate (Sa k) (calc_bin_weights cb (Sc k) (W k) (N k)) ab))"
proof -
  let ?tb = "cb @ ab"
  let ?s = "self\<lparr>transform_binning := Some ?tb\<rparr>"
  let ?ks = "[0..<length (data ?s)]"
  let ?T = "\<lambda>k. accumulate (Sc k @ Sa k) (replicate (N k) 1) ?tb"
  have su: "setup_function self = for_containers (setup_container ?tb) ?ks ?s"
    using cm am excl by (simp add: setup_function_def Let_def)
  have pre0: "\<forall>k\<in>set ?ks.
        map (attrs (data ?s ! k)) (names ?tb) = map (\<lambda>col. Some (Events, col)) (Sc k @ Sa k) \<and>
        (\<forall>c\<in>set (Sc k @ Sa k). length c = N k)"
    using pre by (simp add: names_append)
  have "\<exists>s. for_containers (setup_container ?tb) ?ks ?s = Inr s \<and>
      calc_mode s = calc_mode ?s \<and> apply_mode s = apply_mode ?s \<and>
      error_method s = error_method ?s \<and> transform_binning s = transform_binning ?s \<and>
      length (data s) = length (data ?s) \<and>
      (\<forall>i. i \<notin> set ?ks \<longrightarrow> i < length (data ?s) \<longrightarrow> attrs (data s ! i) = attrs (data ?s ! i)) \<and>
      (\<forall>i<length (data ?s). averaged_view (data s ! i) = averaged_view (data ?s ! i)) \<and>
      (\<forall>k\<in>set ?ks. attrs (data s ! k) =
         (attrs (data ?s ! k))(''hist_transform'' \<mapsto> (Binned ?tb, ?T k)))"
    by (rule for_containers_setup[where S="\<lambda>k. Sc k @ Sa k" and N=N])
       (use ne pre0 in simp_all)
  then obtain s0 where s0: "setup_function self = Inr s0"
      "calc_mode s0 = Binned cb" "apply_mode s0 = Binned ab"
      "transform_binning s0 = Some ?tb"
      "length (data s0) = length (data self)"
      "\<forall>k<length (data self). averaged_view (data s0 ! k) = averaged_view (data self ! k)"
      "\<forall>k<length (data self). attrs (data s0 ! k) =
         (attrs (data self ! k))(''hist_transform'' \<mapsto> (Binned ?tb, ?T k))"
    using su cm am by auto
  let ?ks1 = "[0..<length (data s0)]"
  have lenSc: "length (Sc k) = length cb" if "k < length (data self)" for k
  proof -
    have "map (attrs (data self ! k)) (names cb) = map (\<lambda>col. Some (Events, col)) (Sc k)"
      using pre that by simp
    from arg_cong[OF this, of length] show ?thesis by (simp add: names_def)
  qed
  have wv: "getitem ((data s0 ! k)\<lparr>representation := Binned cb\<rparr>) ''weights'' = Inr (W k)"
    if k: "k < length (data self)" for k
  proof -
    have a: "attrs (data s0 ! k) =
        (attrs (data self ! k))(''hist_transform'' \<mapsto> (Binned ?tb, ?T k))"
      using s0(7) k by simp
    have v: "averaged_view (data s0 ! k) = averaged_view (data self ! k)" using s0(6) k by simp
    have "getitem ((data s0 ! k)\<lparr>representation := Binned cb\<rparr>) ''weights''
        = getitem ((data self ! k)\<lparr>representation := Binned cb\<rparr>) ''weights''"
      by (rule getitem_other_attr[OF a v _ ht]) simp
    then show ?thesis using pre k by simp
  qed
  have tv: "getitem ((data s0 ! k)\<lparr>representation := Binned ?tb\<rparr>) ''hist_transform'' = Inr (?T k)"
    if k: "k < length (data self)" for k
    using s0(7) k by (simp add: getitem_def)
  have pre1: "\<forall>k\<in>set ?ks1.
        getitem ((data s0 ! k)\<lparr>representation := Binned cb\<rparr>) ''weights'' = Inr (W k) \<and>
        getitem ((data s0 ! k)\<lparr>representation := Binned ?tb\<rparr>) ''hist_transform'' = Inr (?T k) \<and>
        W k \<noteq> [] \<and> length (?T k) = length (W k) * total_bins ab"
    using pre s0(5) wv tv by (simp add: accumulate_facts(1) total_bins_append)
  have "\<exists>s. for_containers apply_binned ?ks1 s0 = Inr s \<and>
      calc_mode s = calc_mode s0 \<and> apply_mode s = apply_mode s0 \<and>
      error_method s = error_method s0 \<and> transform_binning s = transform_binning s0 \<and>
      length (data s) = length (data s0) \<and>
      (\<forall>i. i \<notin> set ?ks1 \<longrightarrow> i < length (data s0) \<longrightarrow> attrs (data s ! i) = attrs (data s0 ! i)) \<and>
      (\<forall>i<length (data s0). averaged_view (data s ! i) = averaged_view (data s0 ! i)) \<and>
      (\<forall>k\<in>set ?ks1. attrs (data s ! k) =
          applied_attrs s0 (data s0 ! k) (W k) (?T k) (total_bins ab))"
    by (rule for_containers_apply_binned[OF _ _ s0(2) s0(4) pre1]) simp_all
  then obtain s where s: "for_containers apply_binned ?ks1 s0 = Inr s"
      "length (data s) = length (data s0)"
      "\<forall>k<length (data self). attrs (data s ! k) =
          applied_attrs s0 (data s0 ! k) (W k) (?T k) (total_bins ab)"
    using s0(5) by auto
  have run: "run_stage 1 self = Inr s"
    using s0(1,2) s(1) by (simp add: run_stage_def apply_function_def)
  have res: "attrs (data s ! k) ''weights'' =
           Some (Binned ab, accumulate (Sa k) (calc_bin_weights cb (Sc k) (W k) (N k)) ab)"
    if k: "k < length (data self)" for k
  proof -
    have lw: "length (W k) = total_bins cb" using pre k by simp
    have "attrs (data s ! k) ''weights'' =
        Some (Binned ab, weights_dot_transform (W k) (?T k) (total_bins ab))"
      using s(3) k s0(3) by (simp add: applied_attrs_def)
    then show ?thesis
      by (simp only: transform_product_list[OF lenSc[OF k] lw])
  qed
  show ?thesis using run s(2) s0(5) res by auto
qed

lemma ex_mean_view:
  "getitem ((data ex_stage ! 0)\<lparr>representation := Binned cbin\<rparr>) ''weights'' = Inr [3/2, 4]"
  by (simp add: ex_stage_def ex_container_def getitem_def ex_names event_array_def
      ex_mean_weights)

lemma ex_sum_view:
  "getitem ((data ex_stage_sum ! 0)\<lparr>representation := Binned cbin\<rparr>) ''weights'' = Inr [3, 4]"
  by (simp add: ex_stage_sum_def ex_stage_def ex_container_def getitem_def ex_names
      event_array_def ex_sum_weights)

lemma ex_calc_bin_weights_mean: "calc_bin_weights cbin [[1/2, 1/2, 3/2]] [3/2, 4] 3 = [3/2, 3/2, 4]"
  by code_simp

lemma ex_calc_bin_weights_sum: "calc_bin_weights cbin [[1/2, 1/2, 3/2]] [3, 4] 3 = [3, 3, 4]"
  by code_simp

lemma ex_reweighted_mean: "accumulate [[1/2, 3/2, 3/2]] [3/2, 3/2, 4] abin = [3/2, 11/2]"
  by code_simp

lemma ex_reweighted_sum: "accumulate [[1/2, 3/2, 3/2]] [3, 3, 4] abin = [3, 7]"
  by code_simp

lemma ex_direct_squares:
  "histogram [[1/2, 3/2, 3/2]] (Some (square [1, 2, 4])) abin False = Inr [1, 20]"
  by code_simp

lemma ex_total_bins: "total_bins cbin = 2" "total_bins abin = 2"
  by (simp_all add: total_bins_def num_bins_def cbin_def abin_def)

lemma ex_run_mean:
  "\<exists>s. run_stage 1 ex_stage = Inr s \<and>
       attrs (data s ! 0) ''weights'' = Some (Binned abin, [3/2, 11/2])"
proof -
  have "\<exists>s. run_stage 1 ex_stage = Inr s \<and> length (data s) = length (data ex_stage) \<and>
      (\<forall>k<length (data ex_stage).
         attrs (data s ! k) ''weights'' =
           Some (Binned abin,
                 accumulate [[1/2, 3/2, 3/2]] (calc_bin_weights cbin [[1/2, 1/2, 3/2]] [3/2, 4] 3) abin))"
  proof (rule setup_then_apply[where cb=cbin and ab=abin
          and Sc="\<lambda>_. [[1/2, 1/2, 3/2]]" and Sa="\<lambda>_. [[1/2, 3/2, 3/2]]"
          and N="\<lambda>_. 3" and W="\<lambda>_. [3/2, 4]"])
    show "calc_mode ex_stage = Binned cbin" by (simp add: ex_stage_def)
    show "apply_mode ex_stage = Binned abin" by (simp add: ex_stage_def)
    show "set (names cbin) \<inter> set (names abin) = {}" by (simp add: ex_names)
    show "cbin \<noteq> []" by (simp add: cbin_def)
    show "''hist_transform'' \<notin> set (names cbin)" by (simp add: ex_names)
    have l: "length (data ex_stage) = 1" by (simp add: ex_stage_def)
    have c: "map (attrs (data ex_stage ! 0)) (names cbin) = map (\<lambda>col. Some (Events, col)) [[1/2, 1/2, 3/2]]"
        "map (attrs (data ex_stage ! 0)) (names abin) = map (\<lambda>col. Some (Events, col)) [[1/2, 3/2, 3/2]]"
      by (simp_all add: ex_stage_def ex_container_def ex_names)
    show "\<forall>k<length (data ex_stage).
        map (attrs (data ex_stage ! k)) (names cbin) = map (\<lambda>col. Some (Events, col)) [[1/2, 1/2, 3/2]] \<and>
        map (attrs (data ex_stage ! k)) (names abin) = map (\<lambda>col. Some (Events, col)) [[1/2, 3/2, 3/2]] \<and>
        (\<forall>c\<in>set ([[1/2, 1/2, 3/2]] @ [[1/2, 3/2, 3/2 :: fType]]). length c = 3) \<and>
        getitem ((data ex_stage ! k)\<lparr>representation := Binned cbin\<rparr>) ''weights'' = Inr [3/2, 4] \<and>
        length [3/2, 4 :: fType] = total_bins cbin \<and> [3/2, 4 :: fType] \<noteq> []"
      unfolding l using c ex_mean_view by (simp add: ex_total_bins)
  qed
  then show ?thesis
    unfolding ex_calc_bin_weights_mean ex_reweighted_mean by (auto simp: ex_stage_def)
qed

lemma ex_run_sum:
  "\<exists>s. run_stage 1 ex_stage_sum = Inr s \<and>
       attrs (data s ! 0) ''weights'' = Some (Binned abin, [3, 7])"
proof -
  have "\<exists>s. run_stage 1 ex_stage_sum = Inr s \<and> length (data s) = length (data ex_stage_sum) \<and>
      (\<forall>k<length (data ex_stage_sum).
         attrs (data s ! k) ''weights'' =
           Some (Binned abin,
                 accumulate [[1/2, 3/2, 3/2]] (calc_bin_weights cbin [[1/2, 1/2, 3/2]] [3, 4] 3) abin))"
  proof (rule setup_then_apply[where cb=cbin and ab=abin
          and Sc="\<lambda>_. [[1/2, 1/2, 3/2]]" and Sa="\<lambda>_. [[1/2, 3/2, 3/2]]"
          and N="\<lambda>_. 3" and W="\<lambda>_. [3, 4]"])
    show "calc_mode ex_stage_sum = Binned cbin" by (simp add: ex_stage_sum_def ex_stage_def)
    show "apply_mode ex_stage_sum = Binned abin" by (simp add: ex_stage_sum_def ex_stage_def)
    show "set (names cbin) \<inter> set (names abin) = {}" by (simp add: ex_names)
    show "cbin \<noteq> []" by (simp add: cbin_def)
    show "''hist_transform'' \<notin> set (names cbin)" by (simp add: ex_names)
    have l: "length (data ex_stage_sum) = 1" by (simp add: ex_stage_sum_def)
    have c: "map (attrs (data ex_stage_sum ! 0)) (names cbin) = map (\<lambda>col. Some (Events, col)) [[1/2, 1/2, 3/2]]"
        "map (attrs (data ex_stage_sum ! 0)) (names abin) = map (\<lambda>col. Some (Events, col)) [[1/2, 3/2, 3/2]]"
      by (simp_all add: ex_stage_sum_def ex_container_def ex_names)
    show "\<forall>k<length (data ex_stage_sum).
        map (attrs (data ex_stage_sum ! k)) (names cbin) = map (\<lambda>col. Some (Events, col)) [[1/2, 1/2, 3/2]] \<and>
        map (attrs (data ex_stage_sum ! k)) (names abin) = map (\<lambda>col. Some (Events, col)) [[1/2, 3/2, 3/2]] \<and>
        (\<forall>c\<in>set ([[1/2, 1/2, 3/2]] @ [[1/2, 3/2, 3/2 :: fType]]). length c = 3) \<and>
        getitem ((data ex_stage_sum ! k)\<lparr>representation := Binned cbin\<rparr>) ''weights'' = Inr [3, 4] \<and>
        length [3, 4 :: fType] = total_bins cbin \<and> [3, 4 :: fType] \<noteq> []"
      unfolding l using c ex_sum_view by (simp add: ex_total_bins)
  qed
  then show ?thesis
    unfolding ex_calc_bin_weights_sum ex_reweighted_sum by (auto simp: ex_stage_sum_def)
qed

lemma ex_run_events:
  "\<exists>s. run_stage 1 (ex_stage\<lparr>calc_mode := Events\<rparr>) = Inr s \<and>
       attrs (data s ! 0) ''weights'' = Some (Binned abin, [1, 6])"
  by (simp add: run_stage_def setup_function_def apply_function_def apply_events_def
      ex_stage_def ex_container_def ex_names getitem_def setitem_def Let_def
      ex_direct ex_direct_squares)

text \<open>
  Claim C1 (transform equivalence), as the code has it. The transform \<^verbatim>\<open>setup_function\<close>
  caches is the count of the events per cell of the calculation binning followed by the
  apply binning, and \<^verbatim>\<open>apply_function\<close> contracts it with the weights as the container
  gives them in the calculation representation, one per bin of the calculation binning.
  For a fixed sample, non-empty calculation and apply binnings without a common name and
  every such weight vector, setting the stage up and applying it once returns and
  stores, for every container, the histogram that the direct \<^verbatim>\<open>histogram\<close> call over the
  apply binning gives when each event carries the weight of its bin of the calculation
  binning (no weight outside that binning). The reals stand for the floating-point
  numbers, so the equality of the two histograms is the one the claim asks for within
  tolerance.
\<close>

theorem transform_is_calc_bin_reweighting:
  assumes cm: "calc_mode self = Binned cb" and am: "apply_mode self = Binned ab"
    and excl: "set (names cb) \<inter> set (names ab) = {}"
    and ne: "cb \<noteq> []" "ab \<noteq> []"
    and ht: "''hist_transform'' \<notin> set (names cb)"
    and pre: "\<forall>k<length (data self).
        map (attrs (data self ! k)) (names cb) = map (\<lambda>col. Some (Events, col)) (Sc k) \<and>
        map (attrs (data self ! k)) (names ab) = map (\<lambda>col. Some (Events, col)) (Sa k) \<and>
        (\<forall>c\<in>set (Sc k @ Sa k). length c = N k) \<and>
        getitem ((data self ! k)\<lparr>representation := Binned cb\<rparr>) ''weights'' = Inr (W k) \<and>
        length (W k) = total_bins cb \<and> W k \<noteq> []"
  shows "\<exists>s. run_stage 1 self = Inr s \<and>
      (\<forall>k<length (data self).
         attrs (data s ! k) ''weights'' =
           Some (Binned ab, accumulate (Sa k) (calc_bin_weights cb (Sc k) (W k) (N k)) ab) \<and>
         histogram (Sa k) (Some (calc_bin_weights cb (Sc k) (W k) (N k))) ab False =
           Inr (accumulate (Sa k) (calc_bin_weights cb (Sc k) (W k) (N k)) ab))"
proof -
  from setup_then_apply[OF cm am excl ne(1) ht pre]
  obtain s where s: "run_stage 1 self = Inr s"
      "\<forall>k<length (data self).
         attrs (data s ! k) ''weights'' =
           Some (Binned ab, accumulate (Sa k) (calc_bin_weights cb (Sc k) (W k) (N k)) ab)"
    by blast
  have h: "histogram (Sa k) (Some (calc_bin_weights cb (Sc k) (W k) (N k))) ab False =
           Inr (accumulate (Sa k) (calc_bin_weights cb (Sc k) (W k) (N k)) ab)"
    if k: "k < length (data self)" for k
  proof (rule histogram_Inr)
    have m: "map (attrs (data self ! k)) (names ab) = map (\<lambda>col. Some (Events, col)) (Sa k)"
      using pre k by simp
    from arg_cong[OF m, of length] show len: "length (Sa k) = length ab"
      by (simp add: names_def)
    with ne(2) show "Sa k \<noteq> []" by auto
    show "\<forall>c\<in>set (Sa k). length c = length (calc_bin_weights cb (Sc k) (W k) (N k))"
      using pre k by (simp add: calc_bin_weights_def)
  qed
  show ?thesis using s h by blast
qed

text \<open>On the small stage the container gives the mean weights \<open>3/2\<close> and \<open>4\<close> for the two
  calculation bins; the three events carry \<open>3/2\<close>, \<open>3/2\<close> and \<open>4\<close>, and the stored histogram
  is \<open>[3/2, 11/2]\<close>.\<close>

theorem transform_is_calc_bin_reweighting_witness:
  "\<exists>s. run_stage 1 ex_stage = Inr s \<and>
       calc_bin_weights cbin [[1/2, 1/2, 3/2]] [3/2, 4] 3 = [3/2, 3/2, 4] \<and>
       attrs (data s ! 0) ''weights'' = Some (Binned abin, [3/2, 11/2]) \<and>
       histogram [[1/2, 3/2, 3/2]] (Some [3/2, 3/2, 4]) abin False = Inr [3/2, 11/2]"
proof -
  have "\<exists>s. run_stage 1 ex_stage = Inr s \<and>
      (\<forall>k<length (data ex_stage).
         attrs (data s ! k) ''weights'' =
           Some (Binned abin,
                 accumulate [[1/2, 3/2, 3/2]] (calc_bin_weights cbin [[1/2, 1/2, 3/2]] [3/2, 4] 3) abin) \<and>
         histogram [[1/2, 3/2, 3/2]] (Some (calc_bin_weights cbin [[1/2, 1/2, 3/2]] [3/2, 4] 3)) abin False =
           Inr (accumulate [[1/2, 3/2, 3/2]] (calc_bin_weights cbin [[1/2, 1/2, 3/2]] [3/2, 4] 3) abin))"
  proof (rule transform_is_calc_bin_reweighting[where cb=cbin and ab=abin
          and Sc="\<lambda>_. [[1/2, 1/2, 3/2]]" and Sa="\<lambda>_. [[1/2, 3/2, 3/2]]"
          and N="\<lambda>_. 3" and W="\<lambda>_. [3/2, 4]"])
    show "calc_mode ex_stage = Binned cbin" by (simp add: ex_stage_def)
    show "apply_mode ex_stage = Binned abin" by (simp add: ex_stage_def)
    show "set (names cbin) \<inter> set (names abin) = {}" by (simp add: ex_names)
    show "cbin \<noteq> []" by (simp add: cbin_def)
    show "abin \<noteq> []" by (simp add: abin_def)
    show "''hist_transform'' \<notin> set (names cbin)" by (simp add: ex_names)
    have l: "length (data ex_stage) = 1" by (simp add: ex_stage_def)
    have c: "map (attrs (data ex_stage ! 0)) (names cbin) = map (\<lambda>col. Some (Events, col)) [[1/2, 1/2, 3/2]]"
        "map (attrs (data ex_stage ! 0)) (names abin) = map (\<lambda>col. Some (Events, col)) [[1/2, 3/2, 3/2]]"
      by (simp_all add: ex_stage_def ex_container_def ex_names)
    show "\<forall>k<length (data ex_stage).
        map (attrs (data ex_stage ! k)) (names cbin) = map (\<lambda>col. Some (Events, col)) [[1/2, 1/2, 3/2]] \<and>
        map (attrs (data ex_stage ! k)) (names abin) = map (\<lambda>col. Some (Events, col)) [[1/2, 3/2, 3/2]] \<and>
        (\<forall>c\<in>set ([[1/2, 1/2, 3/2]] @ [[1/2, 3/2, 3/2 :: fType]]). length c = 3) \<and>
        getitem ((data ex_stage ! k)\<lparr>representation := Binned cbin\<rparr>) ''weights'' = Inr [3/2, 4] \<and>
        length [3/2, 4 :: fType] = total_bins cbin \<and> [3/2, 4 :: fType] \<noteq> []"
      unfolding l using c ex_mean_view by (simp add: ex_total_bins)
  qed
  then show ?thesis
    unfolding ex_calc_bin_weights_mean ex_reweighted_mean by (auto simp: ex_stage_def)
qed

text \<open>
  With one weight per event the transform does not give the direct histogram. On the
  small stage the weights are \<open>[1, 2, 4]\<close>, one per event, and nothing else is stored
  under \<^verbatim>\<open>'weights'\<close>. Set up and applied once, the stage stores \<open>[3/2, 11/2]\<close> when the
  container bins by the mean and \<open>[3, 7]\<close> when it bins by the sum, while the direct
  \<^verbatim>\<open>histogram\<close> call with the same sample, weights and apply binning gives \<open>[1, 6]\<close>, which
  is also what the stage stores when its calculation mode is \<^verbatim>\<open>"events"\<close>.
\<close>

theorem transform_differs_from_direct_histogram:
  "attrs ex_container ''reco_e'' = Some (Events, [1/2, 3/2, 3/2]) \<and>
   attrs ex_container ''weights'' = Some (Events, [1, 2, 4]) \<and>
   stored_weights (run_stage 1 ex_stage) 0 = Some (Binned abin, [3/2, 11/2]) \<and>
   stored_weights (run_stage 1 ex_stage_sum) 0 = Some (Binned abin, [3, 7]) \<and>
   histogram [[1/2, 3/2, 3/2]] (Some [1, 2, 4]) abin False = Inr [1, 6] \<and>
   stored_weights (run_stage 1 (ex_stage\<lparr>calc_mode := Events\<rparr>)) 0 = Some (Binned abin, [1, 6])"
proof -
  have a: "attrs ex_container ''reco_e'' = Some (Events, [1/2, 3/2, 3/2])"
      "attrs ex_container ''weights'' = Some (Events, [1, 2, 4])"
    by (simp_all add: ex_container_def)
  have m: "stored_weights (run_stage 1 ex_stage) 0 = Some (Binned abin, [3/2, 11/2])"
    using ex_run_mean by (auto simp: stored_weights_def)
  have s: "stored_weights (run_stage 1 ex_stage_sum) 0 = Some (Binned abin, [3, 7])"
    using ex_run_sum by (auto simp: stored_weights_def)
  have e: "stored_weights (run_stage 1 (ex_stage\<lparr>calc_mode := Events\<rparr>)) 0 = Some (Binned abin, [1, 6])"
    using ex_run_events by (auto simp: stored_weights_def)
  show ?thesis using a m s e ex_direct by simp
qed

end
